theory Spec2Isabelle
  imports Complex_Main
begin

section \<open>Python dictionaries\<close>

text \<open>
  A Python \<^verbatim>\<open>dict\<close> keeps its keys in insertion order and holds each key once. It is
  modelled as an association list: \<open>map_of\<close> is the lookup, \<open>dict_set\<close> is
  \<^verbatim>\<open>d[k] = v\<close> (an existing key keeps its position, a new key goes to the end).
\<close>

fun dict_set :: "'k \<Rightarrow> 'v \<Rightarrow> ('k \<times> 'v) list \<Rightarrow> ('k \<times> 'v) list" where
  "dict_set k v [] = [(k, v)]"
| "dict_set k v ((k', v') # kvs) =
     (if k' = k then (k, v) # kvs else (k', v') # dict_set k v kvs)"

definition dict_update :: "('k \<times> 'v) list \<Rightarrow> ('k \<times> 'v) list \<Rightarrow> ('k \<times> 'v) list" where
  \<comment> \<open>\<^verbatim>\<open>d.update(other)\<close>\<close>
  "dict_update d other = fold (\<lambda>(k, v). dict_set k v) other d"

definition dict_keys :: "('k \<times> 'v) list \<Rightarrow> 'k list" where
  "dict_keys d = map fst d"

section \<open>The graph held by \<^verbatim>\<open>Map\<close> (src/map.py)\<close>

text \<open>
  \<^verbatim>\<open>Map.graph\<close> is a \<^verbatim>\<open>networkx.Graph\<close>: a dictionary \<^verbatim>\<open>_node\<close> from node to its
  attribute dictionary, and a dictionary \<^verbatim>\<open>_adj\<close> from node to a dictionary from
  neighbour to the attribute dictionary of the edge. \<^verbatim>\<open>Graph.add_edge\<close> stores one and the
  same attribute dictionary under \<^verbatim>\<open>_adj[u][v]\<close> and \<^verbatim>\<open>_adj[v][u]\<close>, so a write through
  one direction is seen through the other. The model keeps the attribute dictionaries in
  a store and lets the adjacency entries hold their addresses.

  City identifiers are Python integers. The three edge attributes are the ones
  \<^verbatim>\<open>add_connection\<close> always writes; \<^verbatim>\<open>distance\<close> is annotated \<^verbatim>\<open>int\<close>.
\<close>

type_synonym city = int

record edge_attrs =
  distance :: int
  route_type :: string
  accessible :: bool

type_synonym node_attrs = "(string \<times> string) list"

record graph =
  g_node :: "(city \<times> node_attrs) list"
  g_adj :: "(city \<times> (city \<times> nat) list) list"
  g_store :: "edge_attrs list"

definition empty_graph :: graph where
  \<comment> \<open>\<^verbatim>\<open>nx.Graph()\<close>\<close>
  "empty_graph = \<lparr>g_node = [], g_adj = [], g_store = []\<rparr>"

definition has_node :: "graph \<Rightarrow> city \<Rightarrow> bool" where
  \<comment> \<open>\<^verbatim>\<open>n in G\<close>\<close>
  "has_node g n = (map_of (g_node g) n \<noteq> None)"

definition add_node :: "graph \<Rightarrow> city \<Rightarrow> node_attrs \<Rightarrow> graph" where
  \<comment> \<open>\<^verbatim>\<open>Graph.add_node\<close>: a new node gets an empty adjacency; attributes are merged.\<close>
  "add_node g n attr =
     (case map_of (g_node g) n of
        None \<Rightarrow> g\<lparr>g_adj := dict_set n [] (g_adj g),
                   g_node := dict_set n (dict_update [] attr) (g_node g)\<rparr>
      | Some old \<Rightarrow> g\<lparr>g_node := dict_set n (dict_update old attr) (g_node g)\<rparr>)"

definition touch_node :: "graph \<Rightarrow> city \<Rightarrow> graph" where
  \<comment> \<open>the start of \<^verbatim>\<open>Graph.add_edge\<close>: an endpoint that is no node yet becomes a bare node\<close>
  "touch_node g n =
     (if has_node g n then g
      else g\<lparr>g_adj := dict_set n [] (g_adj g), g_node := dict_set n [] (g_node g)\<rparr>)"

definition adj_of :: "graph \<Rightarrow> city \<Rightarrow> (city \<times> nat) list" where
  "adj_of g u = (case map_of (g_adj g) u of None \<Rightarrow> [] | Some nb \<Rightarrow> nb)"

definition set_adj :: "graph \<Rightarrow> city \<Rightarrow> city \<Rightarrow> nat \<Rightarrow> graph" where
  \<comment> \<open>\<^verbatim>\<open>self._adj[u][v] = datadict\<close>\<close>
  "set_adj g u v r = g\<lparr>g_adj := dict_set u (dict_set v r (adj_of g u)) (g_adj g)\<rparr>"

definition add_edge :: "graph \<Rightarrow> city \<Rightarrow> city \<Rightarrow> edge_attrs \<Rightarrow> graph" where
  \<comment> \<open>\<^verbatim>\<open>Graph.add_edge(u, v, **attr)\<close>: the edge's dictionary is the existing one of
      \<^verbatim>\<open>_adj[u]\<close>, updated in place, or a fresh one; both directions then point to it.\<close>
  "add_edge g u v attr =
     (let g1 = touch_node (touch_node g u) v in
      case map_of (adj_of g1 u) v of
        Some r \<Rightarrow> set_adj (set_adj (g1\<lparr>g_store := (g_store g1)[r := attr]\<rparr>) u v r) v u r
      | None \<Rightarrow>
          (let r = length (g_store g1) in
           set_adj (set_adj (g1\<lparr>g_store := g_store g1 @ [attr]\<rparr>) u v r) v u r))"

definition has_edge :: "graph \<Rightarrow> city \<Rightarrow> city \<Rightarrow> bool" where
  \<comment> \<open>\<^verbatim>\<open>Graph.has_edge\<close>: \<^verbatim>\<open>v in self._adj[u]\<close>, and \<^verbatim>\<open>False\<close> on a \<^verbatim>\<open>KeyError\<close>\<close>
  "has_edge g u v =
     (case map_of (g_adj g) u of None \<Rightarrow> False | Some nb \<Rightarrow> map_of nb v \<noteq> None)"

subsection \<open>The operations of \<^verbatim>\<open>Map\<close>\<close>

definition Map_init :: graph where
  "Map_init = empty_graph"

definition add_city :: "graph \<Rightarrow> city \<Rightarrow> node_attrs \<Rightarrow> graph" where
  "add_city m city_id attributes = add_node m city_id attributes"

definition add_connection :: "graph \<Rightarrow> city \<Rightarrow> city \<Rightarrow> int \<Rightarrow> string \<Rightarrow> bool \<Rightarrow> graph" where
  "add_connection m city_a city_b dst rt acc =
     add_edge m city_a city_b \<lparr>distance = dst, route_type = rt, accessible = acc\<rparr>"

datatype nx_error =
    NodeNotFound
  | NetworkXNoPath
  | ValueError
  | KeyError
  | IndexError
  | UnboundLocalError

definition set_accessibility :: "graph \<Rightarrow> city \<Rightarrow> city \<Rightarrow> bool \<Rightarrow> nx_error + graph" where
  \<comment> \<open>\<^verbatim>\<open>if self.graph.has_edge(city_a, city_b): self.graph[city_a][city_b]["accessible"] = accessible\<close>.
      Each of the two subscripts raises \<^verbatim>\<open>KeyError\<close> on a key that is not there; the
      assignment writes into the edge's dictionary.\<close>
  "set_accessibility m city_a city_b acc =
     (if has_edge m city_a city_b then
        (case map_of (g_adj m) city_a of
           None \<Rightarrow> Inl KeyError
         | Some nb \<Rightarrow>
             (case map_of nb city_b of
                None \<Rightarrow> Inl KeyError
              | Some r \<Rightarrow> Inr (m\<lparr>g_store := (g_store m)[r := (g_store m ! r)\<lparr>accessible := acc\<rparr>]\<rparr>)))
      else Inr m)"

text \<open>
  A graph state is reached from the empty map by a sequence of the three mutators. A call
  that raises has written nothing, so it leaves the state as it was.
\<close>

datatype map_op =
    AddCity city node_attrs
  | AddConnection city city int string bool
  | SetAccessibility city city bool

fun apply_op :: "graph \<Rightarrow> map_op \<Rightarrow> graph" where
  "apply_op m (AddCity n attr) = add_city m n attr"
| "apply_op m (AddConnection a b dst rt acc) = add_connection m a b dst rt acc"
| "apply_op m (SetAccessibility a b acc) =
     (case set_accessibility m a b acc of Inl e \<Rightarrow> m | Inr m' \<Rightarrow> m')"

definition run_ops :: "map_op list \<Rightarrow> graph" where
  "run_ops ops = foldl apply_op Map_init ops"

text \<open>The edges of a graph, as ordered pairs, and the attributes of an edge.\<close>

definition edge_ref :: "graph \<Rightarrow> city \<Rightarrow> city \<Rightarrow> nat option" where
  "edge_ref g u v = map_of (adj_of g u) v"

definition edges :: "graph \<Rightarrow> (city \<times> city) set" where
  "edges g = {(u, v). edge_ref g u v \<noteq> None}"

text \<open>
  What the mutators keep true of the graph: a node has an adjacency exactly when it has
  attributes, no adjacency lists a neighbour twice, and the two directions of an edge
  hold the same address, which is one of the store.
\<close>

definition wf_graph :: "graph \<Rightarrow> bool" where
  "wf_graph g \<longleftrightarrow>
     (\<forall>u. has_node g u \<longleftrightarrow> map_of (g_adj g) u \<noteq> None) \<and>
     (\<forall>u. distinct (map fst (adj_of g u))) \<and>
     (\<forall>u v r. edge_ref g u v = Some r \<longrightarrow> edge_ref g v u = Some r \<and> r < length (g_store g))"

definition proper_endpoints :: "map_op \<Rightarrow> bool" where
  \<comment> \<open>an \<^verbatim>\<open>add_connection\<close> call is given two different cities\<close>
  "proper_endpoints op = (case op of AddConnection a b _ _ _ \<Rightarrow> a \<noteq> b | _ \<Rightarrow> True)"

definition no_self_loop :: "graph \<Rightarrow> bool" where
  "no_self_loop g = (\<forall>(u, v) \<in> edges g. u \<noteq> v)"

section \<open>The path queries\<close>

subsection \<open>The filtered view\<close>

text \<open>
  Both queries search \<^verbatim>\<open>nx.subgraph_view(self.graph, filter_edge=...)\<close>. The view copies
  nothing: each read goes to the graph as it is at that moment. Its nodes are the nodes of
  the graph; the items of its adjacency at \<open>v\<close> are the entries of \<^verbatim>\<open>_adj[v]\<close>, in their
  order, whose edge dictionary has \<^verbatim>\<open>accessible\<close> true, each with that dictionary. A node
  the adjacency does not hold is a \<^verbatim>\<open>KeyError\<close> (\<open>None\<close>).
\<close>

definition edge_ok :: "graph \<Rightarrow> city \<times> nat \<Rightarrow> bool" where
  \<comment> \<open>\<^verbatim>\<open>filter_edge\<close>: \<^verbatim>\<open>self.graph[u][v]["accessible"]\<close>, for the entry of \<open>v\<close> under \<open>u\<close>\<close>
  "edge_ok g e = accessible (g_store g ! snd e)"

definition view_items :: "graph \<Rightarrow> city \<Rightarrow> (city \<times> edge_attrs) list option" where
  "view_items g v =
     (case map_of (g_adj g) v of
        None \<Rightarrow> None
      | Some nb \<Rightarrow> Some (map (\<lambda>(w, r). (w, g_store g ! r)) (filter (edge_ok g) nb)))"

subsection \<open>The search: \<^verbatim>\<open>networkx.bidirectional_dijkstra\<close>\<close>

text \<open>
  \<^verbatim>\<open>nx.shortest_path(G, source, target, weight)\<close> with both endpoints and a weight given
  uses the method \<^verbatim>\<open>dijkstra\<close>, which in networkx 3 is
  \<^verbatim>\<open>_, paths = nx.bidirectional_dijkstra(G, source, target, weight)\<close>. networkx is a
  dependency of the repository; the definitions below follow the text of that function
  statement by statement.

  The two-element lists \<^verbatim>\<open>dists\<close>, \<^verbatim>\<open>paths\<close>, \<^verbatim>\<open>fringe\<close> and \<^verbatim>\<open>seen\<close> are indexed by the
  direction: \<open>False\<close> is Python's \<open>0\<close> (forward, from the source), \<open>True\<close> is \<open>1\<close> (backward,
  from the target), and \<^verbatim>\<open>1 - dir\<close> is the negation. The dictionaries of the search are
  only looked up, never iterated, so they are maps. \<^verbatim>\<open>finaldist\<close> is unbound until it is
  first assigned (\<open>None\<close>).

  Python numbers: the weights are of a type \<open>'w\<close>; it is \<open>int\<close> for distances and \<open>rat\<close>
  for costs (a Python \<^verbatim>\<open>float\<close> taken as the exact number it denotes; rounding is not
  part of this model).
\<close>

type_synonym 'w entry = "'w \<times> nat \<times> city"

record 'w search =
  dists :: "bool \<Rightarrow> city \<rightharpoonup> 'w"
  paths :: "bool \<Rightarrow> city \<rightharpoonup> city list"
  fringe :: "bool \<Rightarrow> 'w entry list"
  seen :: "bool \<Rightarrow> city \<rightharpoonup> 'w"
  counter :: nat
  finaldist :: "'w option"
  finalpath :: "city list"
  dir :: bool

text \<open>
  The heaps hold tuples \<^verbatim>\<open>(distance, next(c), node)\<close>. \<^verbatim>\<open>heappop\<close> returns the least
  tuple; tuples compare lexicographically and the counter values are all different, so
  the least tuple is the one with the least distance and, among those, the least counter.
  The model keeps the tuples of a heap in a list and takes that one out.
\<close>

fun entry_le :: "('w::linorder) entry \<Rightarrow> 'w entry \<Rightarrow> bool" where
  "entry_le (d, n, v) (d', n', v') = (d < d' \<or> (d = d' \<and> n \<le> n'))"

fun heap_min :: "('w::linorder) entry \<Rightarrow> 'w entry list \<Rightarrow> 'w entry" where
  "heap_min m [] = m"
| "heap_min m (e # es) = heap_min (if entry_le m e then m else e) es"

definition heappush :: "'w entry list \<Rightarrow> 'w entry \<Rightarrow> 'w entry list" where
  "heappush h e = h @ [e]"

definition heappop :: "('w::linorder) entry list \<Rightarrow> nx_error + ('w entry \<times> 'w entry list)" where
  "heappop h =
     (case h of
        [] \<Rightarrow> Inl IndexError
      | e # es \<Rightarrow> (let m = heap_min e es in Inr (m, remove1 m h)))"

text \<open>
  The body of \<^verbatim>\<open>for w, d in neighs[dir][v].items()\<close>, for one item. \<open>wt\<close> is the weight
  function \<^verbatim>\<open>weight(u, v, data)\<close>; the two weight functions of \<^verbatim>\<open>Map\<close> never return
  \<^verbatim>\<open>None\<close>, so the branch \<^verbatim>\<open>if cost is None: continue\<close> is not taken.
\<close>

definition set_final :: "city \<Rightarrow> 'w \<Rightarrow> 'w search \<Rightarrow> nx_error + 'w search" where
  \<comment> \<open>the three assignments to \<^verbatim>\<open>finaldist\<close>, \<^verbatim>\<open>revpath\<close> and \<^verbatim>\<open>finalpath\<close>\<close>
  "set_final w totaldist s =
     (case paths s True w of
        None \<Rightarrow> Inl KeyError
      | Some p1 \<Rightarrow>
          (case paths s False w of
             None \<Rightarrow> Inl KeyError
           | Some p0 \<Rightarrow> Inr (s\<lparr>finaldist := Some totaldist, finalpath := p0 @ tl (rev p1)\<rparr>)))"

definition update_final :: "city \<Rightarrow> ('w::{linorder,plus}) search \<Rightarrow> nx_error + 'w search" where
  \<comment> \<open>\<^verbatim>\<open>if w in seen[0] and w in seen[1]: ...\<close>; reading \<^verbatim>\<open>finaldist\<close> while it is
      unbound is an \<^verbatim>\<open>UnboundLocalError\<close>\<close>
  "update_final w s =
     (case seen s False w of
        None \<Rightarrow> Inr s
      | Some a \<Rightarrow>
          (case seen s True w of
             None \<Rightarrow> Inr s
           | Some b \<Rightarrow>
               (let totaldist = a + b in
                if finalpath s = [] then set_final w totaldist s
                else
                  (case finaldist s of
                     None \<Rightarrow> Inl UnboundLocalError
                   | Some fd \<Rightarrow> if fd > totaldist then set_final w totaldist s else Inr s))))"

definition relaxed :: "city \<Rightarrow> 'w \<Rightarrow> city list \<Rightarrow> 'w search \<Rightarrow> 'w search" where
  \<comment> \<open>the three statements under \<^verbatim>\<open># relaxing\<close>\<close>
  "relaxed w vwLength pv s =
     s\<lparr>seen := (seen s)(dir s := (seen s (dir s))(w \<mapsto> vwLength)),
       fringe := (fringe s)(dir s := heappush (fringe s (dir s)) (vwLength, counter s, w)),
       counter := counter s + 1,
       paths := (paths s)(dir s := (paths s (dir s))(w \<mapsto> pv @ [w]))\<rparr>"

definition relax :: "(city \<Rightarrow> city \<Rightarrow> edge_attrs \<Rightarrow> 'w) \<Rightarrow> city \<Rightarrow> city \<times> edge_attrs \<Rightarrow>
    ('w::{linorder,plus}) search \<Rightarrow> nx_error + 'w search" where
  "relax wt v item s =
     (case item of (w, d) \<Rightarrow>
        (let cost = (if \<not> dir s then wt v w d else wt w v d) in
         case dists s (dir s) v of
           None \<Rightarrow> Inl KeyError
         | Some dv \<Rightarrow>
             (let vwLength = dv + cost in
              case dists s (dir s) w of
                Some dw \<Rightarrow> if vwLength < dw then Inl ValueError else Inr s
              | None \<Rightarrow>
                  if (case seen s (dir s) w of None \<Rightarrow> True | Some sw \<Rightarrow> vwLength < sw) then
                    (case paths s (dir s) v of
                       None \<Rightarrow> Inl KeyError
                     | Some pv \<Rightarrow> update_final w (relaxed w vwLength pv s))
                  else Inr s)))"

fun for_items :: "('a \<Rightarrow> 's \<Rightarrow> nx_error + 's) \<Rightarrow> 'a list \<Rightarrow> 's \<Rightarrow> nx_error + 's" where
  "for_items f [] s = Inr s"
| "for_items f (x # xs) s =
     (case f x s of Inl e \<Rightarrow> Inl e | Inr s' \<Rightarrow> for_items f xs s')"

text \<open>
  One pass of \<^verbatim>\<open>while fringe[0] and fringe[1]\<close>: the result is the value returned, the
  exception raised, or the state for the next pass.
\<close>

datatype 'w pass = Return "'w \<times> city list" | Raise nx_error | Next "'w search"

definition bd_pass :: "graph \<Rightarrow> (city \<Rightarrow> city \<Rightarrow> edge_attrs \<Rightarrow> 'w) \<Rightarrow>
    ('w::{linorder,plus}) search \<Rightarrow> 'w pass" where
  "bd_pass g wt s =
     (let d' = \<not> dir s in
      case heappop (fringe s d') of
        Inl e \<Rightarrow> Raise e
      | Inr ((dst, n, v), rest) \<Rightarrow>
          (let s1 = s\<lparr>dir := d', fringe := (fringe s)(d' := rest)\<rparr> in
           if dists s1 d' v \<noteq> None then Next s1
           else
             (let s2 = s1\<lparr>dists := (dists s1)(d' := (dists s1 d')(v \<mapsto> dst))\<rparr> in
              if dists s2 (\<not> d') v \<noteq> None then
                (case finaldist s2 of
                   None \<Rightarrow> Raise UnboundLocalError
                 | Some fd \<Rightarrow> Return (fd, finalpath s2))
              else
                (case view_items g v of
                   None \<Rightarrow> Raise KeyError
                 | Some items \<Rightarrow>
                     (case for_items (relax wt v) items s2 of
                        Inl e \<Rightarrow> Raise e
                      | Inr s3 \<Rightarrow> Next s3)))))"

definition todo :: "graph \<Rightarrow> 'w search \<Rightarrow> nat" where
  \<comment> \<open>the nodes of the adjacency not yet in \<^verbatim>\<open>dists\<close>, counted per direction\<close>
  "todo g s =
     card {v \<in> set (dict_keys (g_adj g)). dists s False v = None} +
     card {v \<in> set (dict_keys (g_adj g)). dists s True v = None}"

function bd_loop :: "graph \<Rightarrow> (city \<Rightarrow> city \<Rightarrow> edge_attrs \<Rightarrow> 'w) \<Rightarrow>
    ('w::{linorder,plus}) search \<Rightarrow> nx_error + ('w \<times> city list)" where
  "bd_loop g wt s =
     (if fringe s False \<noteq> [] \<and> fringe s True \<noteq> [] then
        (case bd_pass g wt s of
           Return r \<Rightarrow> Inr r
         | Raise e \<Rightarrow> Inl e
         | Next s' \<Rightarrow> bd_loop g wt s')
      else Inl NetworkXNoPath)"
  by pat_completeness auto

text \<open>
  The loop ends: a pass that does not leave the loop either takes a stale tuple off a
  heap, or puts a node of the adjacency into \<^verbatim>\<open>dists\<close> that was not there.
\<close>

lemma update_final_keeps:
  "update_final w s = Inr s' \<Longrightarrow> dists s' = dists s \<and> dir s' = dir s \<and> fringe s' = fringe s \<and> seen s' = seen s \<and> paths s' = paths s \<and> counter s' = counter s"
  by (auto simp: update_final_def set_final_def Let_def split: option.splits if_splits)

lemma relax_dists:
  "relax wt v item s = Inr s' \<Longrightarrow> dists s' = dists s"
  by (auto simp: relax_def relaxed_def Let_def split: option.splits if_splits prod.splits
      dest!: update_final_keeps)

lemma for_items_relax_dists:
  "for_items (relax wt v) items s = Inr s' \<Longrightarrow> dists s' = dists s"
  by (induction items arbitrary: s) (auto split: sum.splits dest: relax_dists)

lemma heap_min_in: "heap_min m es \<in> set (m # es)"
  by (induction es arbitrary: m) auto

lemma heappop_Inr:
  "heappop h = Inr (e, rest) \<Longrightarrow> e \<in> set h \<and> rest = remove1 e h"
  using heap_min_in[of "hd h" "tl h"]
  by (cases h) (auto simp: heappop_def Let_def)

lemma heappop_length:
  "heappop h = Inr (e, rest) \<Longrightarrow> Suc (length rest) = length h"
proof -
  assume "heappop h = Inr (e, rest)"
  then have "e \<in> set h" "rest = remove1 e h" using heappop_Inr by blast+
  then show ?thesis using length_pos_if_in_set[of e h] by (simp add: length_remove1)
qed

lemma todo_less:
  assumes "dists s d v = None" "v \<in> set (dict_keys (g_adj g))"
    and "dists s' = (dists s)(d := (dists s d)(v \<mapsto> x))"
  shows "todo g s' < todo g s"
proof -
  let ?K = "set (dict_keys (g_adj g))"
  have fin: "finite {u \<in> ?K. dists s b u = None}" for b by simp
  have sub: "{u \<in> ?K. dists s' b u = None} \<subseteq> {u \<in> ?K. dists s b u = None}" for b
    using assms by (auto split: if_splits)
  have strict: "{u \<in> ?K. dists s' d u = None} \<subset> {u \<in> ?K. dists s d u = None}"
    using assms by (auto split: if_splits)
  have le: "card {u \<in> ?K. dists s' b u = None} \<le> card {u \<in> ?K. dists s b u = None}" for b
    by (rule card_mono[OF fin sub])
  have lt: "card {u \<in> ?K. dists s' d u = None} < card {u \<in> ?K. dists s d u = None}"
    by (rule psubset_card_mono[OF fin strict])
  show ?thesis
    unfolding todo_def using le[of False] le[of True] lt by (cases d) auto
qed

lemma view_items_key: "view_items g v = Some items \<Longrightarrow> v \<in> set (dict_keys (g_adj g))"
  by (auto simp: view_items_def dict_keys_def split: option.splits dest: map_of_SomeD intro: rev_image_eqI)

lemma bd_pass_decreases:
  assumes "bd_pass g wt s = Next s'"
  shows "todo g s' < todo g s \<or>
    (todo g s' = todo g s \<and>
     length (fringe s' False) + length (fringe s' True) < length (fringe s False) + length (fringe s True))"
proof -
  let ?d = "\<not> dir s"
  from assms obtain dst n v rest where pop: "heappop (fringe s ?d) = Inr ((dst, n, v), rest)"
    by (auto simp: bd_pass_def Let_def split: sum.splits prod.splits)
  let ?s1 = "s\<lparr>dir := ?d, fringe := (fringe s)(?d := rest)\<rparr>"
  let ?s2 = "?s1\<lparr>dists := (dists ?s1)(?d := (dists ?s1 ?d)(v \<mapsto> dst))\<rparr>"
  show ?thesis
  proof (cases "dists s ?d v")
    case (Some x)
    with assms pop have "s' = ?s1" by (simp add: bd_pass_def Let_def)
    then have "todo g s' = todo g s" "fringe s' = (fringe s)(?d := rest)"
      by (simp_all add: todo_def)
    with heappop_length[OF pop] show ?thesis by (cases "dir s") auto
  next
    case None
    with assms pop obtain items where it: "view_items g v = Some items"
      and run: "for_items (relax wt v) items ?s2 = Inr s'"
      by (auto simp: bd_pass_def Let_def split: if_splits option.splits sum.splits)
    have "dists s' = (dists s)(?d := (dists s ?d)(v \<mapsto> dst))"
      using for_items_relax_dists[OF run] by simp
    from todo_less[OF None view_items_key[OF it] this] show ?thesis by simp
  qed
qed

termination bd_loop
proof (relation "inv_image (less_than <*lex*> less_than)
    (\<lambda>(g, wt, s). (todo g s, length (fringe s False) + length (fringe s True)))", goal_cases)
  case 1
  show ?case by (intro wf_inv_image wf_lex_prod wf_less_than)
next
  case (2 g wt s s')
  from bd_pass_decreases[OF 2(2)] show ?case by auto
qed

definition init_search :: "city \<Rightarrow> city \<Rightarrow> ('w::zero) search" where
  \<comment> \<open>the state before the loop; \<^verbatim>\<open>dir = 1\<close>, the counter has given out 0 and 1\<close>
  "init_search source target =
     \<lparr>dists = (\<lambda>_. Map.empty),
      paths = (\<lambda>b. if b then [target \<mapsto> [target]] else [source \<mapsto> [source]]),
      fringe = (\<lambda>b. if b then heappush [] (0, 1, target) else heappush [] (0, 0, source)),
      seen = (\<lambda>b. if b then [target \<mapsto> 0] else [source \<mapsto> 0]),
      counter = 2,
      finaldist = None,
      finalpath = [],
      dir = True\<rparr>"

definition bidirectional_dijkstra :: "graph \<Rightarrow> city \<Rightarrow> city \<Rightarrow>
    (city \<Rightarrow> city \<Rightarrow> edge_attrs \<Rightarrow> 'w) \<Rightarrow> nx_error + (('w::{linorder,plus,zero}) \<times> city list)" where
  "bidirectional_dijkstra g source target wt =
     (if \<not> has_node g source then Inl NodeNotFound
      else if \<not> has_node g target then Inl NodeNotFound
      else if source = target then Inr (0, [source])
      else bd_loop g wt (init_search source target))"

definition shortest_path :: "graph \<Rightarrow> city \<Rightarrow> city \<Rightarrow>
    (city \<Rightarrow> city \<Rightarrow> edge_attrs \<Rightarrow> ('w::{linorder,plus,zero})) \<Rightarrow> nx_error + city list" where
  \<comment> \<open>\<^verbatim>\<open>_, paths = nx.bidirectional_dijkstra(G, source, target, weight); return paths\<close>\<close>
  "shortest_path g source target wt =
     (case bidirectional_dijkstra g source target wt of
        Inl e \<Rightarrow> Inl e
      | Inr (d, p) \<Rightarrow> Inr p)"

subsection \<open>\<^verbatim>\<open>Map.get_shortest_path\<close> and \<^verbatim>\<open>Map.get_cheapest_path\<close>\<close>

definition distance_weight :: "city \<Rightarrow> city \<Rightarrow> edge_attrs \<Rightarrow> int" where
  \<comment> \<open>\<^verbatim>\<open>weight="distance"\<close>: \<^verbatim>\<open>lambda u, v, data: data.get("distance", 1)\<close>\<close>
  "distance_weight u v a = distance a"

definition cost :: "rat \<Rightarrow> rat \<Rightarrow> city \<Rightarrow> city \<Rightarrow> edge_attrs \<Rightarrow> rat" where
  \<comment> \<open>the local function \<^verbatim>\<open>cost(u, v, a)\<close> of \<^verbatim>\<open>get_cheapest_path\<close>\<close>
  "cost land_cost_per_km sea_cost_per_km u v a =
     (let base = distance a in
      if route_type a = ''land'' then of_int base * land_cost_per_km
      else of_int base * sea_cost_per_km)"

definition get_shortest_path :: "graph \<Rightarrow> city \<Rightarrow> city \<Rightarrow> nx_error + city list" where
  "get_shortest_path m start end = shortest_path m start end distance_weight"

definition get_cheapest_path :: "graph \<Rightarrow> city \<Rightarrow> city \<Rightarrow> rat \<Rightarrow> rat \<Rightarrow> nx_error + city list" where
  "get_cheapest_path m start end land_cost_per_km sea_cost_per_km =
     shortest_path m start end (cost land_cost_per_km sea_cost_per_km)"

text \<open>
  Paths and their totals, to state what the queries return. An accessible path is a
  non-empty sequence of nodes of the graph in which each consecutive pair is an edge whose
  \<^verbatim>\<open>accessible\<close> flag is set; its total is the sum of the weights of these edges.
\<close>

definition edge_data :: "graph \<Rightarrow> city \<Rightarrow> city \<Rightarrow> edge_attrs option" where
  \<comment> \<open>\<^verbatim>\<open>self.graph[u][v]\<close>\<close>
  "edge_data g u v = map_option (\<lambda>r. g_store g ! r) (edge_ref g u v)"

definition accessible_edge :: "graph \<Rightarrow> city \<Rightarrow> city \<Rightarrow> bool" where
  "accessible_edge g u v = (case edge_data g u v of None \<Rightarrow> False | Some a \<Rightarrow> accessible a)"

fun accessible_path :: "graph \<Rightarrow> city list \<Rightarrow> bool" where
  "accessible_path g [] = False"
| "accessible_path g [u] = has_node g u"
| "accessible_path g (u # v # p) = (accessible_edge g u v \<and> accessible_path g (v # p))"

definition path_between :: "graph \<Rightarrow> city \<Rightarrow> city \<Rightarrow> city list \<Rightarrow> bool" where
  "path_between g a b p = (accessible_path g p \<and> hd p = a \<and> last p = b)"

definition edge_weight :: "graph \<Rightarrow> (city \<Rightarrow> city \<Rightarrow> edge_attrs \<Rightarrow> 'w) \<Rightarrow> city \<Rightarrow> city \<Rightarrow> ('w::zero)" where
  "edge_weight g wt u v = (case edge_data g u v of None \<Rightarrow> 0 | Some a \<Rightarrow> wt u v a)"

fun path_total :: "graph \<Rightarrow> (city \<Rightarrow> city \<Rightarrow> edge_attrs \<Rightarrow> 'w) \<Rightarrow> city list \<Rightarrow> ('w::{zero,plus})" where
  "path_total g wt (u # v # p) = edge_weight g wt u v + path_total g wt (v # p)"
| "path_total g wt p = 0"

text \<open>
  The backward search walks the edges from the target, so a path it builds is read from
  the target outwards. \<open>dweight\<close> is the weight of the step from \<open>u\<close> to \<open>v\<close> as the search
  of direction \<open>k\<close> computes it (\<^verbatim>\<open>weight(v, w, d)\<close> forward, \<^verbatim>\<open>weight(w, v, d)\<close> backward),
  and \<open>dtotal\<close> sums it along a path.
\<close>

definition dweight :: "graph \<Rightarrow> (city \<Rightarrow> city \<Rightarrow> edge_attrs \<Rightarrow> 'w) \<Rightarrow> bool \<Rightarrow> city \<Rightarrow> city \<Rightarrow> ('w::zero)" where
  "dweight g wt k u v = (if k then edge_weight g wt v u else edge_weight g wt u v)"

fun dtotal :: "graph \<Rightarrow> (city \<Rightarrow> city \<Rightarrow> edge_attrs \<Rightarrow> 'w) \<Rightarrow> bool \<Rightarrow> city list \<Rightarrow> ('w::{zero,plus})" where
  "dtotal g wt k (u # v # p) = dweight g wt k u v + dtotal g wt k (v # p)"
| "dtotal g wt k p = 0"

definition nonneg_weights :: "graph \<Rightarrow> (city \<Rightarrow> city \<Rightarrow> edge_attrs \<Rightarrow> ('w::{zero,ord})) \<Rightarrow> bool" where
  \<comment> \<open>no accessible edge has a negative weight, in either direction\<close>
  "nonneg_weights g wt =
     (\<forall>u v. accessible_edge g u v \<longrightarrow> 0 \<le> edge_weight g wt u v)"

definition uses_edge :: "city list \<Rightarrow> city \<Rightarrow> city \<Rightarrow> bool" where
  \<comment> \<open>\<open>a\<close> and \<open>b\<close> are consecutive in the path, in either order\<close>
  "uses_edge p a b =
     (\<exists>i. Suc i < length p \<and> ((p ! i = a \<and> p ! Suc i = b) \<or> (p ! i = b \<and> p ! Suc i = a)))"

subsection \<open>Invariants of the search\<close>

text \<open>
  The facts that hold each time the loop of the search reaches its test, per direction
  \<open>k\<close> with its root \<open>r\<close> (the source forward, the target backward). While the items
  of a node \<open>v0\<close> are being relaxed, the edges from \<open>v0\<close> into \<open>R\<close> are still to come.
\<close>

definition root :: "city \<Rightarrow> city \<Rightarrow> bool \<Rightarrow> city" where
  "root src tgt k = (if k then tgt else src)"

definition seen_ok :: "graph \<Rightarrow> (city \<Rightarrow> city \<Rightarrow> edge_attrs \<Rightarrow> 'w) \<Rightarrow> city \<Rightarrow> bool \<Rightarrow>
    ('w::{zero,plus}) search \<Rightarrow> bool" where
  \<comment> \<open>a seen node has a path from the root, whose total is its \<^verbatim>\<open>seen\<close> value\<close>
  "seen_ok g wt r k s \<longleftrightarrow>
     (\<forall>w d. seen s k w = Some d \<longrightarrow>
        (\<exists>p. paths s k w = Some p \<and> accessible_path g p \<and> hd p = r \<and> last p = w \<and>
             dtotal g wt k p = d))"

definition dists_ok :: "bool \<Rightarrow> 'w search \<Rightarrow> bool" where
  "dists_ok k s \<longleftrightarrow> (\<forall>v d. dists s k v = Some d \<longrightarrow> seen s k v = Some d)"

definition closed :: "graph \<Rightarrow> (city \<Rightarrow> city \<Rightarrow> edge_attrs \<Rightarrow> 'w) \<Rightarrow> bool \<Rightarrow> city \<Rightarrow> city set \<Rightarrow>
    ('w::{zero,plus,ord}) search \<Rightarrow> bool" where
  \<comment> \<open>the edges out of the nodes of \<^verbatim>\<open>dists\<close> have been relaxed\<close>
  "closed g wt k v0 R s \<longleftrightarrow>
     (\<forall>v d w. dists s k v = Some d \<longrightarrow> accessible_edge g v w \<longrightarrow> (v = v0 \<longrightarrow> w \<notin> R) \<longrightarrow>
        (\<exists>d'. seen s k w = Some d' \<and> d' \<le> d + dweight g wt k v w))"

definition fringe_ok :: "bool \<Rightarrow> ('w::ord) search \<Rightarrow> bool" where
  \<comment> \<open>a seen node outside \<^verbatim>\<open>dists\<close> is on the heap with its \<^verbatim>\<open>seen\<close> value, and the heap
      holds seen nodes only, with values not below \<^verbatim>\<open>seen\<close>\<close>
  "fringe_ok k s \<longleftrightarrow>
     (\<forall>w d. seen s k w = Some d \<longrightarrow> dists s k w = None \<longrightarrow> (\<exists>n. (d, n, w) \<in> set (fringe s k))) \<and>
     (\<forall>d n w. (d, n, w) \<in> set (fringe s k) \<longrightarrow> (\<exists>d'. seen s k w = Some d' \<and> d' \<le> d))"

definition root_ok :: "city \<Rightarrow> bool \<Rightarrow> ('w::zero) search \<Rightarrow> bool" where
  "root_ok r k s \<longleftrightarrow>
     seen s k r = Some 0 \<and>
     (dists s k r \<noteq> None \<or> (dists s k = Map.empty \<and> seen s k = [r \<mapsto> 0]))"

definition side_inv :: "graph \<Rightarrow> (city \<Rightarrow> city \<Rightarrow> edge_attrs \<Rightarrow> 'w) \<Rightarrow> city \<Rightarrow> bool \<Rightarrow> city \<Rightarrow>
    city set \<Rightarrow> ('w::{zero,plus,ord}) search \<Rightarrow> bool" where
  "side_inv g wt r k v0 R s \<longleftrightarrow>
     seen_ok g wt r k s \<and> dists_ok k s \<and> closed g wt k v0 R s \<and> fringe_ok k s \<and> root_ok r k s"

definition final_ok :: "graph \<Rightarrow> (city \<Rightarrow> city \<Rightarrow> edge_attrs \<Rightarrow> 'w) \<Rightarrow> city \<Rightarrow> city \<Rightarrow>
    ('w::{zero,plus,ord}) search \<Rightarrow> bool" where
  \<comment> \<open>\<^verbatim>\<open>finalpath\<close> is a path from source to target of total \<^verbatim>\<open>finaldist\<close>, no longer than
      the way through any node seen from both sides\<close>
  "final_ok g wt src tgt s \<longleftrightarrow>
     (\<forall>w a b. seen s False w = Some a \<longrightarrow> seen s True w = Some b \<longrightarrow>
        finalpath s \<noteq> [] \<and> (\<forall>fd. finaldist s = Some fd \<longrightarrow> fd \<le> a + b)) \<and>
     (finalpath s \<noteq> [] \<longrightarrow>
        (\<exists>fd. finaldist s = Some fd \<and> path_between g src tgt (finalpath s) \<and>
              path_total g wt (finalpath s) = fd))"

definition phase_ok :: "city \<Rightarrow> 'w search \<Rightarrow> bool" where
  \<comment> \<open>no node is in both \<^verbatim>\<open>dists\<close>; the first pass is forward and takes the source, the
      second is backward\<close>
  "phase_ok src s \<longleftrightarrow>
     (\<forall>v. dists s False v \<noteq> None \<longrightarrow> dists s True v = None) \<and>
     (dists s True = Map.empty \<longrightarrow> dom (dists s False) \<subseteq> {src}) \<and>
     (dists s False = Map.empty \<longrightarrow> dists s True = Map.empty \<and> dir s) \<and>
     (dists s True = Map.empty \<longrightarrow> dists s False \<noteq> Map.empty \<longrightarrow> \<not> dir s)"

definition inv0 :: "graph \<Rightarrow> (city \<Rightarrow> city \<Rightarrow> edge_attrs \<Rightarrow> 'w) \<Rightarrow> city \<Rightarrow> city \<Rightarrow> city \<Rightarrow>
    city set \<Rightarrow> ('w::{zero,plus,ord}) search \<Rightarrow> bool" where
  "inv0 g wt src tgt v0 R s \<longleftrightarrow>
     (\<forall>k. side_inv g wt (root src tgt k) k v0 (if k = dir s then R else {}) s) \<and>
     final_ok g wt src tgt s \<and> phase_ok src s"

text \<open>With weights that are not negative, moreover:\<close>

definition optimal :: "graph \<Rightarrow> (city \<Rightarrow> city \<Rightarrow> edge_attrs \<Rightarrow> 'w) \<Rightarrow> city \<Rightarrow> bool \<Rightarrow>
    ('w::{zero,plus,ord}) search \<Rightarrow> bool" where
  \<comment> \<open>a value of \<^verbatim>\<open>dists\<close> is the least total of a path from the root\<close>
  "optimal g wt r k s \<longleftrightarrow>
     (\<forall>v d p. dists s k v = Some d \<longrightarrow> accessible_path g p \<longrightarrow> hd p = r \<longrightarrow> last p = v \<longrightarrow>
        d \<le> dtotal g wt k p)"

definition monotone :: "bool \<Rightarrow> ('w::ord) search \<Rightarrow> bool" where
  \<comment> \<open>the heap holds nothing below a value of \<^verbatim>\<open>dists\<close>\<close>
  "monotone k s \<longleftrightarrow>
     (\<forall>v d d' n w. dists s k v = Some d \<longrightarrow> (d', n, w) \<in> set (fringe s k) \<longrightarrow> d \<le> d')"

definition inv1 :: "graph \<Rightarrow> (city \<Rightarrow> city \<Rightarrow> edge_attrs \<Rightarrow> 'w) \<Rightarrow> city \<Rightarrow> city \<Rightarrow>
    ('w::{zero,plus,ord}) search \<Rightarrow> bool" where
  "inv1 g wt src tgt s \<longleftrightarrow>
     (\<forall>k. optimal g wt (root src tgt k) k s \<and> monotone k s)"

definition latest :: "city \<Rightarrow> ('w::ord) search \<Rightarrow> bool" where
  \<comment> \<open>\<open>v0\<close>, the node being expanded, has the greatest value of \<^verbatim>\<open>dists\<close>\<close>
  "latest v0 s \<longleftrightarrow>
     (\<exists>dv. dists s (dir s) v0 = Some dv \<and> (\<forall>v d. dists s (dir s) v = Some d \<longrightarrow> d \<le> dv))"

section \<open>\<^verbatim>\<open>Registry\<close> (src/registry.py)\<close>

text \<open>
  \<^verbatim>\<open>self.registry\<close> maps a company id (an \<^verbatim>\<open>int\<close>) to the tuple \<^verbatim>\<open>(name, ticker)\<close>.
  The test \<^verbatim>\<open>name in self.registry\<close> compares the string with the keys, and
  \<^verbatim>\<open>ticker in self.registry.values()\<close> compares the string with the tuples. Python's
  \<^verbatim>\<open>==\<close> between values of different types is false; the values compared are
  therefore kept apart by a datatype.
\<close>

datatype pyval = PyInt int | PyStr string | PyTuple "pyval list"

record registry_state =
  registry :: "(int \<times> (string \<times> string)) list"
  next_company_id :: int

definition Registry_init :: registry_state where
  "Registry_init = \<lparr>registry = [], next_company_id = 1\<rparr>"

definition registry_keys :: "registry_state \<Rightarrow> pyval list" where
  "registry_keys r = map (\<lambda>(k, _). PyInt k) (registry r)"

definition registry_values :: "registry_state \<Rightarrow> pyval list" where
  "registry_values r = map (\<lambda>(_, (n, t)). PyTuple [PyStr n, PyStr t]) (registry r)"

definition register_company :: "registry_state \<Rightarrow> string \<Rightarrow> string \<Rightarrow> int option \<times> registry_state" where
  "register_company r name ticker =
     (if PyStr name \<in> set (registry_keys r) \<or> PyStr ticker \<in> set (registry_values r)
      then (None, r)
      else
        (let company_id = next_company_id r in
         (Some company_id,
          r\<lparr>next_company_id := next_company_id r + 1,
            registry := dict_set company_id (name, ticker) (registry r)\<rparr>)))"

definition name_taken :: "registry_state \<Rightarrow> string \<Rightarrow> bool" where
  "name_taken r name = (\<exists>(k, (n, t)) \<in> set (registry r). n = name)"

definition ticker_taken :: "registry_state \<Rightarrow> string \<Rightarrow> bool" where
  "ticker_taken r ticker = (\<exists>(k, (n, t)) \<in> set (registry r). t = ticker)"

section \<open>Python floats\<close>

text \<open>
  A Python \<^verbatim>\<open>float\<close> is an IEEE 754 binary64 number. A finite one is kept as its sign
  (\<open>True\<close> for minus, so that the two zeros stay apart) and its magnitude, a rational; the
  magnitudes of the doubles are the multiples \<open>k * 2 ^ e\<close> with \<open>k < 2 ^ 53\<close> and
  \<open>- 1074 \<le> e\<close> that are below \<open>2 ^ 1024\<close>. An operation delivers the double nearest to
  the exact result, a tie going to the even multiple: \<open>round_double\<close> rounds a magnitude
  at the spacing \<open>2 ^ e\<close> of the doubles around it, where \<open>e\<close> is 52 below the exponent
  of the leading bit and not below \<open>- 1074\<close> (the subnormal range). A rounded magnitude of
  \<open>2 ^ 1024\<close> or more is an overflow.
\<close>

fun bit_length :: "nat \<Rightarrow> nat" where
  \<comment> \<open>\<^verbatim>\<open>int.bit_length()\<close>\<close>
  "bit_length n = (if n = 0 then 0 else Suc (bit_length (n div 2)))"

declare bit_length.simps [simp del]

definition floor_log2 :: "rat \<Rightarrow> int" where
  \<comment> \<open>the exponent of the leading bit of a positive rational: \<open>2 ^ l \<le> x < 2 ^ (l + 1)\<close>\<close>
  "floor_log2 x =
     (case quotient_of x of (a, b) \<Rightarrow>
        let k = int (bit_length (nat a)) - int (bit_length (nat b)) in
        if 2 powi k \<le> x then k else k - 1)"

definition round_half_even :: "rat \<Rightarrow> int" where
  \<comment> \<open>the nearest integer, a tie going to the even one\<close>
  "round_half_even x =
     (let f = \<lfloor>x\<rfloor>; d = x - of_int f in
      if d < 1 / 2 then f
      else if 1 / 2 < d then f + 1
      else if even f then f else f + 1)"

definition ulp_exp :: "rat \<Rightarrow> int" where
  \<comment> \<open>the exponent of the spacing of the doubles at the magnitude \<open>x\<close>\<close>
  "ulp_exp x = max (floor_log2 x - 52) (- 1074)"

definition round_double :: "rat \<Rightarrow> rat" where
  "round_double x =
     (let e = ulp_exp x in
      of_int (round_half_even (x / 2 powi e)) * 2 powi e)"

definition is_double :: "rat \<Rightarrow> bool" where
  \<comment> \<open>\<open>m\<close> is the magnitude of a finite double\<close>
  "is_double m \<longleftrightarrow> 0 \<le> m \<and> m < 2 ^ 1024 \<and> round_double m = m"

datatype pyfloat = Finite bool rat | Infinity bool | NaN

definition to_double :: "bool \<Rightarrow> rat \<Rightarrow> pyfloat" where
  \<comment> \<open>the double for an exact result of sign \<open>s\<close> and magnitude \<open>x\<close>; overflow gives an infinity\<close>
  "to_double s x = (let m = round_double x in if 2 ^ 1024 \<le> m then Infinity s else Finite s m)"

fun float_mul :: "pyfloat \<Rightarrow> pyfloat \<Rightarrow> pyfloat" where
  \<comment> \<open>\<^verbatim>\<open>*\<close> on two floats: the C multiplication, which raises nothing\<close>
  "float_mul (Finite s m) (Finite t n) = to_double (s \<noteq> t) (m * n)"
| "float_mul (Finite s m) (Infinity t) = (if m = 0 then NaN else Infinity (s \<noteq> t))"
| "float_mul (Infinity s) (Finite t n) = (if n = 0 then NaN else Infinity (s \<noteq> t))"
| "float_mul (Infinity s) (Infinity t) = Infinity (s \<noteq> t)"
| "float_mul NaN y = NaN"
| "float_mul x NaN = NaN"

text \<open>
  A Python number of this program is an \<^verbatim>\<open>int\<close> or a \<^verbatim>\<open>float\<close>. Python compares an
  \<^verbatim>\<open>int\<close> with a \<^verbatim>\<open>float\<close> by their exact values; every comparison with a NaN is false.
  \<open>rank\<close> places a number that is no NaN on the extended line.
\<close>

datatype number = IntNum int | FloatNum pyfloat

fun rank :: "number \<Rightarrow> (int \<times> rat) option" where
  "rank (IntNum n) = Some (0, of_int n)"
| "rank (FloatNum (Finite s m)) = Some (0, if s then - m else m)"
| "rank (FloatNum (Infinity s)) = Some (if s then - 1 else 1, 0)"
| "rank (FloatNum NaN) = None"

definition num_ge :: "number \<Rightarrow> number \<Rightarrow> bool" where
  \<comment> \<open>\<^verbatim>\<open>x >= y\<close>\<close>
  "num_ge x y =
     (case (rank x, rank y) of
        (Some (i, u), Some (j, v)) \<Rightarrow> j < i \<or> (j = i \<and> v \<le> u)
      | _ \<Rightarrow> False)"

definition num_gt :: "number \<Rightarrow> number \<Rightarrow> bool" where
  \<comment> \<open>\<^verbatim>\<open>x > y\<close>\<close>
  "num_gt x y =
     (case (rank x, rank y) of
        (Some (i, u), Some (j, v)) \<Rightarrow> j < i \<or> (j = i \<and> v < u)
      | _ \<Rightarrow> False)"

section \<open>\<^verbatim>\<open>Company\<close> (src/company.py)\<close>

text \<open>
  \<^verbatim>\<open>outputs\<close> and \<^verbatim>\<open>capacity\<close> are dictionaries from product to \<^verbatim>\<open>int\<close>. The loop of
  \<^verbatim>\<open>calculate_efficiency\<close> runs over \<^verbatim>\<open>capacity.items()\<close> with the two running totals,
  which are Python integers (unbounded). The result is the \<^verbatim>\<open>int\<close> 0 or the \<^verbatim>\<open>float\<close>
  \<^verbatim>\<open>total_output / total_capacity * 100\<close>.

  \<^verbatim>\<open>/\<close> on two \<^verbatim>\<open>int\<close>s raises \<^verbatim>\<open>ZeroDivisionError\<close> for a zero divisor; otherwise it
  gives the double nearest to the exact quotient, with the sign of a zero result taken
  from the operands, and raises \<^verbatim>\<open>OverflowError\<close> when that double would be out of range.
  The product with the \<^verbatim>\<open>int\<close> 100 is the float product with 100.0.
\<close>

definition outputs_get :: "(string \<times> int) list \<Rightarrow> string \<Rightarrow> int" where
  \<comment> \<open>\<^verbatim>\<open>outputs.get(product, 0)\<close>\<close>
  "outputs_get outputs product = (case map_of outputs product of None \<Rightarrow> 0 | Some n \<Rightarrow> n)"

fun efficiency_loop :: "(string \<times> int) list \<Rightarrow> (string \<times> int) list \<Rightarrow> int \<times> int \<Rightarrow> int \<times> int" where
  "efficiency_loop outputs [] (total_output, total_capacity) = (total_output, total_capacity)"
| "efficiency_loop outputs ((product, cap) # items) (total_output, total_capacity) =
     (let prod = outputs_get outputs product in
      efficiency_loop outputs items (total_output + prod, total_capacity + cap))"

datatype arith_error = ZeroDivisionError | OverflowError

definition truediv :: "int \<Rightarrow> int \<Rightarrow> arith_error + pyfloat" where
  \<comment> \<open>Python's \<^verbatim>\<open>/\<close> on two \<^verbatim>\<open>int\<close>s\<close>
  "truediv a b =
     (if b = 0 then Inl ZeroDivisionError
      else
        (let negate = ((a < 0) \<noteq> (b < 0));
             m = round_double (of_int \<bar>a\<bar> / of_int \<bar>b\<bar>)
         in if 2 ^ 1024 \<le> m then Inl OverflowError else Inr (Finite negate m)))"

definition calculate_efficiency :: "(string \<times> int) list \<Rightarrow> (string \<times> int) list \<Rightarrow> arith_error + number" where
  "calculate_efficiency outputs capacity =
     (case efficiency_loop outputs capacity (0, 0) of
        (total_output, total_capacity) \<Rightarrow>
          if total_capacity = 0 then Inr (IntNum 0)
          else
            (case truediv total_output total_capacity of
               Inl e \<Rightarrow> Inl e
             | Inr q \<Rightarrow> Inr (FloatNum (float_mul q (Finite False 100)))))"

definition set_status :: "number \<Rightarrow> string" where
  \<comment> \<open>the literal \<^verbatim>\<open>0.9\<close> is the double nearest to 9/10\<close>
  "set_status efficiency =
     (if num_ge efficiency (FloatNum (to_double False (9 / 10))) then ''Operational''
      else if num_gt efficiency (IntNum 0) then ''Limited''
      else ''Idle'')"

text \<open>
  \<^verbatim>\<open>Company.__init__\<close> up to the section \<^verbatim>\<open># Operations\<close>, the one that computes:
  \<^verbatim>\<open>self.efficiency = self.calculate_efficiency(outputs, capacity)\<close> and
  \<^verbatim>\<open>self.status = self.set_status(self.efficiency)\<close>. The sections after it store further
  arguments and read neither \<^verbatim>\<open>efficiency\<close> nor \<^verbatim>\<open>status\<close>.
\<close>

record company =
  inputs :: "(string \<times> int) list"
  outputs :: "(string \<times> int) list"
  capacity :: "(string \<times> int) list"
  efficiency :: number
  inventory :: "(string \<times> int) list"
  status :: string

definition Company_init :: "(string \<times> int) list \<Rightarrow> (string \<times> int) list \<Rightarrow> (string \<times> int) list \<Rightarrow>
    (string \<times> int) list \<Rightarrow> arith_error + company" where
  "Company_init ins outs cap invt =
     (case calculate_efficiency outs cap of
        Inl e \<Rightarrow> Inl e
      | Inr eff \<Rightarrow>
          Inr \<lparr>inputs = ins, outputs = outs, capacity = cap, efficiency = eff,
               inventory = invt, status = set_status eff\<rparr>)"

text \<open>
  The totals, to state what \<^verbatim>\<open>calculate_efficiency\<close> computes: the output summed over the
  products that \<^verbatim>\<open>capacity\<close> lists, a product that \<^verbatim>\<open>outputs\<close> lacks counting 0, and
  the summed capacity.
\<close>

definition total_output_of :: "(string \<times> int) list \<Rightarrow> (string \<times> int) list \<Rightarrow> int" where
  "total_output_of outs cap =
     (\<Sum>(product, c) \<leftarrow> cap. case map_of outs product of None \<Rightarrow> 0 | Some n \<Rightarrow> n)"

definition total_capacity_of :: "(string \<times> int) list \<Rightarrow> int" where
  "total_capacity_of cap = (\<Sum>(product, c) \<leftarrow> cap. c)"

section \<open>Rounding to a double\<close>

subsection \<open>The leading bit\<close>

lemma bit_length_0 [simp]: "bit_length 0 = 0"
  by (simp add: bit_length.simps)

lemma bit_length_pos: "0 < n \<Longrightarrow> bit_length n = Suc (bit_length (n div 2))"
  by (subst bit_length.simps) simp

lemma bit_length_bounds: "0 < n \<Longrightarrow> 2 ^ (bit_length n - 1) \<le> n \<and> n < 2 ^ bit_length n"
proof (induction n rule: bit_length.induct)
  case (1 n)
  show ?case
  proof (cases "n div 2 = 0")
    case True
    with 1(2) have "n = 1" by (simp add: div_eq_0_iff) 
    then show ?thesis by (simp add: bit_length_pos)
  next
    case False
    then have p: "0 < n div 2" by simp
    from 1(2) have n0: "n \<noteq> 0" by simp
    from 1(1)[OF n0 p] have lo: "2 ^ (bit_length (n div 2) - 1) \<le> n div 2"
      and hi: "n div 2 < 2 ^ bit_length (n div 2)" by simp_all
    have bl: "bit_length n = Suc (bit_length (n div 2))" using 1(2) by (rule bit_length_pos)
    have pos: "0 < bit_length (n div 2)" using p by (simp add: bit_length_pos)
    then obtain j where j: "bit_length (n div 2) = Suc j" by (cases "bit_length (n div 2)") auto
    from lo j have "2 ^ j \<le> n div 2" by simp
    then have "2 * 2 ^ j \<le> n" by linarith
    moreover from hi have "n < 2 * 2 ^ bit_length (n div 2)" by linarith
    ultimately show ?thesis by (simp add: bl j)
  qed
qed

lemma floor_log2_bounds:
  assumes "0 < x"
  shows "2 powi floor_log2 x \<le> x" and "x < 2 powi (floor_log2 x + 1)"
proof -
  obtain a b where q: "quotient_of x = (a, b)" by (cases "quotient_of x")
  then have b: "0 < b" by (rule quotient_of_denom_pos)
  from q have x: "x = of_int a / of_int b" by (rule quotient_of_div)
  with assms b have a: "0 < a" by (simp add: zero_less_divide_iff)
  define la where "la = bit_length (nat a)"
  define lb where "lb = bit_length (nat b)"
  define k where "k = int la - int lb"
  from a have "0 < nat a" by simp
  from bit_length_bounds[OF this] have a1: "2 ^ (la - 1) \<le> nat a" and a2: "nat a < 2 ^ la"
    by (simp_all add: la_def)
  from b have "0 < nat b" by simp
  from bit_length_bounds[OF this] have b1: "2 ^ (lb - 1) \<le> nat b" and b2: "nat b < 2 ^ lb"
    by (simp_all add: lb_def)
  have lapos: "0 < la" using a2 \<open>0 < nat a\<close> by (cases la) auto
  have lbpos: "0 < lb" using b2 \<open>0 < nat b\<close> by (cases lb) auto
  have ra: "(of_int a :: rat) = of_nat (nat a)" using a by simp
  have rb: "(of_int b :: rat) = of_nat (nat b)" using b by simp
  have A1: "(2::rat) ^ (la - 1) \<le> of_int a"
    unfolding ra using a1 by (metis of_nat_le_iff of_nat_numeral of_nat_power)
  have A2: "of_int a < (2::rat) ^ la"
    unfolding ra using a2 by (metis of_nat_less_iff of_nat_numeral of_nat_power)
  have B1: "(2::rat) ^ (lb - 1) \<le> of_int b"
    unfolding rb using b1 by (metis of_nat_le_iff of_nat_numeral of_nat_power)
  have B2: "of_int b < (2::rat) ^ lb"
    unfolding rb using b2 by (metis of_nat_less_iff of_nat_numeral of_nat_power)
  have bpos: "(0::rat) < of_int b" using b by simp
  have k1: "(2::rat) powi (k - 1) = 2 ^ (la - 1) / 2 ^ lb"
  proof -
    have "k - 1 = int (la - 1) - int lb" using lapos by (simp add: k_def)
    then show ?thesis by (simp add: power_int_diff)
  qed
  have k2: "(2::rat) powi (k + 1) = 2 ^ la / 2 ^ (lb - 1)"
  proof -
    have "k + 1 = int la - int (lb - 1)" using lbpos by (simp add: k_def)
    then show ?thesis by (simp add: power_int_diff)
  qed
  have lo: "2 powi (k - 1) \<le> x"
  proof -
    have "(2::rat) ^ (la - 1) / 2 ^ lb \<le> of_int a / 2 ^ lb"
      using A1 by (simp add: divide_right_mono)
    also have "\<dots> \<le> of_int a / of_int b"
      using B2 bpos a by (simp add: frac_le)
    finally show ?thesis by (simp add: k1 x)
  qed
  have hi: "x < 2 powi (k + 1)"
  proof -
    have p: "(0::rat) < 2 ^ (lb - 1)" by simp
    have "of_int a / of_int b < (2::rat) ^ la / of_int b"
      using A2 bpos by (simp add: divide_strict_right_mono)
    also have "\<dots> \<le> 2 ^ la / 2 ^ (lb - 1)"
      using B1 p by (simp add: frac_le)
    finally show ?thesis by (simp add: k2 x)
  qed
  have fl: "floor_log2 x = (if 2 powi k \<le> x then k else k - 1)"
    by (simp add: floor_log2_def q k_def la_def lb_def Let_def)
  show "2 powi floor_log2 x \<le> x" using lo by (simp add: fl)
  show "x < 2 powi (floor_log2 x + 1)" using hi by (auto simp: fl)
qed

lemma pow2_pos [simp]: "(0::rat) < 2 powi n"
  by (simp add: zero_less_power_int)

lemma pow2_le: "m \<le> n \<Longrightarrow> (2::rat) powi m \<le> 2 powi n"
  by (rule power_int_increasing) simp_all

lemma pow2_less: "m < n \<Longrightarrow> (2::rat) powi m < 2 powi n"
  by (rule power_int_strict_increasing) simp_all

lemma pow2_lessD: "(2::rat) powi m < 2 powi n \<Longrightarrow> m < n"
  using pow2_le[of n m] by (cases "m < n") auto

lemma pow2_leD: "(2::rat) powi m \<le> 2 powi n \<Longrightarrow> m \<le> n"
  using pow2_less[of n m] by (cases "m \<le> n") auto

lemma pow2_add: "(2::rat) powi (m + n) = 2 powi m * 2 powi n"
  by (simp add: power_int_add)

lemma floor_log2_unique:
  assumes "2 powi l \<le> x" "x < 2 powi (l + 1)"
  shows "floor_log2 x = l"
proof -
  have pos: "0 < x" using assms(1) pow2_pos[of l] by linarith
  note b = floor_log2_bounds[OF pos]
  have "2 powi l < (2::rat) powi (floor_log2 x + 1)" using assms(1) b(2) by simp
  then have 1: "l < floor_log2 x + 1" by (rule pow2_lessD)
  have "2 powi floor_log2 x < (2::rat) powi (l + 1)" using assms(2) b(1) by simp
  then have 2: "floor_log2 x < l + 1" by (rule pow2_lessD)
  from 1 2 show ?thesis by simp
qed

subsection \<open>Rounding to the nearest integer\<close>

lemma rhe_of_int [simp]: "round_half_even (of_int n) = n"
  by (simp add: round_half_even_def)

lemma rhe_cases:
  "round_half_even x = \<lfloor>x\<rfloor> \<and> x - of_int \<lfloor>x\<rfloor> \<le> 1 / 2 \<or>
   round_half_even x = \<lfloor>x\<rfloor> + 1 \<and> 1 / 2 \<le> x - of_int \<lfloor>x\<rfloor>"
  by (auto simp: round_half_even_def Let_def)

lemma rhe_ge_floor: "\<lfloor>x\<rfloor> \<le> round_half_even x"
  using rhe_cases[of x] by auto

lemma rhe_le_floor1: "round_half_even x \<le> \<lfloor>x\<rfloor> + 1"
  using rhe_cases[of x] by auto

lemma rhe_less: assumes "x < of_int n + 1 / 2" shows "round_half_even x \<le> n"
proof -
  have "x < of_int (n + 1)" using assms by simp
  then have "\<lfloor>x\<rfloor> < n + 1" by (simp only: floor_less_iff)
  then have f: "\<lfloor>x\<rfloor> \<le> n" by simp
  show ?thesis
  proof (cases "\<lfloor>x\<rfloor> = n")
    case True
    with assms have "x - of_int \<lfloor>x\<rfloor> < 1 / 2" by simp
    then show ?thesis using True by (simp add: round_half_even_def Let_def)
  next
    case False
    with f have "\<lfloor>x\<rfloor> + 1 \<le> n" by simp
    with rhe_le_floor1[of x] show ?thesis by linarith
  qed
qed

lemma rhe_greater: assumes "of_int n - 1 / 2 < x" shows "n \<le> round_half_even x"
proof -
  have "of_int (n - 1) \<le> x" using assms by simp
  then have f: "n - 1 \<le> \<lfloor>x\<rfloor>" by (simp only: le_floor_iff)
  show ?thesis
  proof (cases "\<lfloor>x\<rfloor> = n - 1")
    case True
    with assms have "1 / 2 < x - of_int \<lfloor>x\<rfloor>" by simp
    then show ?thesis using True by (simp add: round_half_even_def Let_def)
  next
    case False
    with f have "n \<le> \<lfloor>x\<rfloor>" by simp
    with rhe_ge_floor[of x] show ?thesis by linarith
  qed
qed

lemma rhe_eq: "of_int n - 1 / 2 < x \<Longrightarrow> x < of_int n + 1 / 2 \<Longrightarrow> round_half_even x = n"
  using rhe_less[of x n] rhe_greater[of n x] by simp

lemma rhe_tie: "round_half_even (of_int n + 1 / 2) = (if even n then n else n + 1)"
proof -
  have "\<lfloor>of_int n + (1 / 2 :: rat)\<rfloor> = n" by (simp add: floor_unique)
  then show ?thesis by (simp add: round_half_even_def Let_def)
qed

lemma rhe_mono: assumes "x \<le> y" shows "round_half_even x \<le> round_half_even y"
proof (cases "\<lfloor>x\<rfloor> = \<lfloor>y\<rfloor>")
  case True
  then show ?thesis using assms by (auto simp: round_half_even_def Let_def)
next
  case False
  with assms have "\<lfloor>x\<rfloor> + 1 \<le> \<lfloor>y\<rfloor>" using floor_mono[OF assms] by simp
  with rhe_le_floor1[of x] rhe_ge_floor[of y] show ?thesis by linarith
qed

lemma rhe_le_int: "x \<le> of_int n \<Longrightarrow> round_half_even x \<le> n"
  using rhe_mono[of x "of_int n"] by simp

lemma rhe_ge_int: "of_int n \<le> x \<Longrightarrow> n \<le> round_half_even x"
  using rhe_mono[of "of_int n" x] by simp

lemma rhe_0 [simp]: "round_half_even 0 = 0"
  using rhe_of_int[of 0] by simp

lemma rhe_error: "\<bar>of_int (round_half_even x) - x\<bar> \<le> 1 / 2"
proof -
  have "of_int \<lfloor>x\<rfloor> \<le> x" "x < of_int \<lfloor>x\<rfloor> + 1" by linarith+
  with rhe_cases[of x] show ?thesis by (auto simp: abs_le_iff)
qed

subsection \<open>Rounding is monotone\<close>

lemma round_double_alt:
  "round_double x = of_int (round_half_even (x / 2 powi ulp_exp x)) * 2 powi ulp_exp x"
  by (simp add: round_double_def Let_def)

lemma ulp_exp_ge: "- 1074 \<le> ulp_exp x"
  by (simp add: ulp_exp_def)

lemma ulp_exp_normal:
  "2 powi (e + 52) \<le> x \<Longrightarrow> x < 2 powi (e + 53) \<Longrightarrow> - 1074 \<le> e \<Longrightarrow> ulp_exp x = e"
  using floor_log2_unique[of "e + 52" x] by (simp add: ulp_exp_def add.commute)

lemma ulp_exp_subnormal:
  assumes "0 < x" "x < 2 powi (- 1022)" shows "ulp_exp x = - 1074"
proof -
  from floor_log2_bounds(1)[OF assms(1)] assms(2)
  have "(2::rat) powi floor_log2 x < 2 powi (- 1022)" by simp
  then have "floor_log2 x < - 1022" by (rule pow2_lessD)
  then show ?thesis by (simp add: ulp_exp_def)
qed

lemma ulp_exp_upper: assumes "0 < x" shows "x < 2 powi (ulp_exp x + 53)"
proof -
  have "floor_log2 x + 1 \<le> ulp_exp x + 53" by (simp add: ulp_exp_def)
  then have "(2::rat) powi (floor_log2 x + 1) \<le> 2 powi (ulp_exp x + 53)" by (rule pow2_le)
  with floor_log2_bounds(2)[OF assms] show ?thesis by simp
qed

lemma ulp_exp_lower:
  assumes "0 < x" "- 1074 < ulp_exp x" shows "2 powi (ulp_exp x + 52) \<le> x"
proof -
  from assms(2) have "ulp_exp x = floor_log2 x - 52" by (simp add: ulp_exp_def split: if_splits)
  then have "ulp_exp x + 52 = floor_log2 x" by simp
  with floor_log2_bounds(1)[OF assms(1)] show ?thesis by simp
qed

lemma floor_log2_mono: assumes "0 < x" "x \<le> y" shows "floor_log2 x \<le> floor_log2 y"
proof -
  have y: "0 < y" using assms by simp
  from floor_log2_bounds(1)[OF assms(1)] floor_log2_bounds(2)[OF y] assms(2)
  have "(2::rat) powi floor_log2 x < 2 powi (floor_log2 y + 1)" by simp
  then have "floor_log2 x < floor_log2 y + 1" by (rule pow2_lessD)
  then show ?thesis by simp
qed

lemma ulp_exp_mono: "0 < x \<Longrightarrow> x \<le> y \<Longrightarrow> ulp_exp x \<le> ulp_exp y"
  using floor_log2_mono[of x y] by (simp add: ulp_exp_def)

lemma scaled: "x / 2 powi e * 2 powi e = (x::rat)"
  by simp

lemma div_pow2_le: "x \<le> y * 2 powi e \<Longrightarrow> x / 2 powi e \<le> (y::rat)"
  by (simp add: pos_divide_le_eq)

lemma div_pow2_ge: "y * 2 powi e \<le> x \<Longrightarrow> (y::rat) \<le> x / 2 powi e"
  by (simp add: pos_le_divide_eq)

lemma round_double_0 [simp]: "round_double 0 = 0"
  by (simp add: round_double_alt)

lemma round_double_nonneg: assumes "0 \<le> x" shows "0 \<le> round_double x"
proof -
  have "(0::rat) \<le> x / 2 powi ulp_exp x" using assms by simp
  then have "0 \<le> round_half_even (x / 2 powi ulp_exp x)"
    using rhe_ge_int[of 0] by simp
  then show ?thesis by (simp add: round_double_alt)
qed

lemma round_double_le_pow:
  assumes "0 < x" shows "round_double x \<le> 2 powi (ulp_exp x + 53)"
proof -
  let ?e = "ulp_exp x"
  have "x / 2 powi ?e \<le> 2 powi 53"
    using ulp_exp_upper[OF assms] by (intro div_pow2_le) (simp add: pow2_add mult.commute)
  then have "x / 2 powi ?e \<le> of_int (2 ^ 53)" by simp
  then have "round_half_even (x / 2 powi ?e) \<le> 2 ^ 53" by (rule rhe_le_int)
  then have "(of_int (round_half_even (x / 2 powi ?e)) :: rat) \<le> of_int (2 ^ 53)"
    by (simp only: of_int_le_iff)
  then have "of_int (round_half_even (x / 2 powi ?e)) * 2 powi ?e \<le> (2::rat) powi 53 * 2 powi ?e"
    by (intro mult_right_mono) simp_all
  then show ?thesis by (simp add: round_double_alt pow2_add mult.commute)
qed

lemma round_double_ge_pow:
  assumes "0 < x" "- 1074 < ulp_exp x" shows "2 powi (ulp_exp x + 52) \<le> round_double x"
proof -
  let ?e = "ulp_exp x"
  have "2 powi 52 \<le> x / 2 powi ?e"
    using ulp_exp_lower[OF assms] by (intro div_pow2_ge) (simp add: pow2_add mult.commute)
  then have "of_int (2 ^ 52) \<le> x / 2 powi ?e" by simp
  then have "2 ^ 52 \<le> round_half_even (x / 2 powi ?e)" by (rule rhe_ge_int)
  then have "(of_int (2 ^ 52) :: rat) \<le> of_int (round_half_even (x / 2 powi ?e))"
    by (simp only: of_int_le_iff)
  then have "(2::rat) powi 52 * 2 powi ?e \<le> of_int (round_half_even (x / 2 powi ?e)) * 2 powi ?e"
    by (intro mult_right_mono) simp_all
  then show ?thesis by (simp add: round_double_alt pow2_add mult.commute)
qed

lemma round_double_mono:
  assumes "0 \<le> x" "x \<le> y" shows "round_double x \<le> round_double y"
proof (cases "x = 0")
  case True
  then show ?thesis using assms round_double_nonneg[of y] by simp
next
  case False
  with assms have x: "0 < x" and y: "0 < y" by simp_all
  have le: "ulp_exp x \<le> ulp_exp y" using x assms(2) by (rule ulp_exp_mono)
  show ?thesis
  proof (cases "ulp_exp x = ulp_exp y")
    case True
    have "x / 2 powi ulp_exp y \<le> y / 2 powi ulp_exp y"
      using assms(2) by (simp add: divide_right_mono)
    then have "round_half_even (x / 2 powi ulp_exp y) \<le> round_half_even (y / 2 powi ulp_exp y)"
      by (rule rhe_mono)
    then have "(of_int (round_half_even (x / 2 powi ulp_exp y)) :: rat) \<le>
        of_int (round_half_even (y / 2 powi ulp_exp y))"
      by (simp only: of_int_le_iff)
    then show ?thesis
      by (simp add: round_double_alt True mult_right_mono)
  next
    case False
    with le have lt: "ulp_exp x < ulp_exp y" by simp
    then have n: "- 1074 < ulp_exp y" using ulp_exp_ge[of x] by simp
    have "round_double x \<le> 2 powi (ulp_exp x + 53)" using x by (rule round_double_le_pow)
    also have "\<dots> \<le> 2 powi (ulp_exp y + 52)" using lt by (intro pow2_le) simp
    also have "\<dots> \<le> round_double y" using y n by (rule round_double_ge_pow)
    finally show ?thesis .
  qed
qed

subsection \<open>Values and thresholds\<close>

lemma round_double_normal:
  "- 1074 \<le> e \<Longrightarrow> 2 powi (e + 52) \<le> x \<Longrightarrow> x < 2 powi (e + 53) \<Longrightarrow>
     round_double x = of_int (round_half_even (x / 2 powi e)) * 2 powi e"
  by (simp add: round_double_alt ulp_exp_normal)

lemma round_double_at:
  assumes "- 1074 \<le> e" "2 powi (e + 52) \<le> x" "x < 2 powi (e + 53)"
    and "of_int n - 1 / 2 < x / 2 powi e" "x / 2 powi e < of_int n + 1 / 2"
  shows "round_double x = of_int n * 2 powi e"
  using round_double_normal[OF assms(1-3)] rhe_eq[OF assms(4,5)] by simp

lemma round_double_tie:
  assumes "- 1074 \<le> e" "2 powi (e + 52) \<le> x" "x < 2 powi (e + 53)"
    and "x / 2 powi e = of_int n + 1 / 2"
  shows "round_double x = of_int (if even n then n else n + 1) * 2 powi e"
  using round_double_normal[OF assms(1-3)] rhe_tie[of n] assms(4) by simp

lemma round_double_upper:
  assumes "- 1074 \<le> e" "2 powi (e + 52) \<le> x" "x < 2 powi (e + 53)"
    and "x / 2 powi e < of_int n + 1 / 2"
  shows "round_double x \<le> of_int n * 2 powi e"
proof -
  have "round_half_even (x / 2 powi e) \<le> n" using assms(4) by (rule rhe_less)
  then have "(of_int (round_half_even (x / 2 powi e)) :: rat) \<le> of_int n"
    by (simp only: of_int_le_iff)
  then show ?thesis
    by (simp add: round_double_normal[OF assms(1-3)] mult_right_mono)
qed

lemma round_double_exact:
  assumes "- 1074 \<le> e" "2 powi (e + 52) \<le> x" "x < 2 powi (e + 53)"
    and "x / 2 powi e = of_int n"
  shows "round_double x = x"
proof -
  have "round_double x = of_int n * 2 powi e"
    using round_double_normal[OF assms(1-3)] assms(4) by simp
  also have "\<dots> = x / 2 powi e * 2 powi e" by (simp only: assms(4))
  finally show ?thesis by simp
qed

text \<open>The literal \<^verbatim>\<open>0.9\<close>, and the doubles around 9/1000 and their products with 100.\<close>

lemma lit_0_9: "round_double (9 / 10) = 8106479329266893 / 2 ^ 53"
  using round_double_at[of "- 53" "9 / 10" 8106479329266893] by simp

lemma rd_9_1000: "round_double (9 / 1000) = 5188146770730811 / 2 ^ 59"
  using round_double_at[of "- 59" "9 / 1000" 5188146770730811] by simp

lemma rd_threshold: "round_double (10376293541461623 / 2 ^ 60) = 5188146770730812 / 2 ^ 59"
  using round_double_tie[of "- 59" "10376293541461623 / 2 ^ 60" 5188146770730811] by simp

lemma rd_pow_m7: "round_double (1 / 2 ^ 7) = 1 / 2 ^ 7"
  using round_double_exact[of "- 59" "1 / 2 ^ 7" "2 ^ 52"] by simp

lemma rd_below_threshold:
  assumes "0 \<le> q" "q < 10376293541461623 / 2 ^ 60"
  shows "round_double q \<le> 5188146770730811 / 2 ^ 59"
proof (cases "q < 1 / 2 ^ 7")
  case True
  then have "round_double q \<le> round_double (1 / 2 ^ 7)"
    using assms(1) by (intro round_double_mono) simp_all
  also have "\<dots> = 1 / 2 ^ 7" by (rule rd_pow_m7)
  also have "\<dots> \<le> 5188146770730811 / 2 ^ 59" by simp
  finally show ?thesis .
next
  case False
  then have lo: "1 / 2 ^ 7 \<le> q" by simp
  have "round_double q \<le> of_int 5188146770730811 * 2 powi (- 59)"
    using lo assms(2) by (intro round_double_upper) simp_all
  then show ?thesis by simp
qed

lemma rd_above_threshold:
  assumes "10376293541461623 / 2 ^ 60 \<le> q"
  shows "5188146770730812 / 2 ^ 59 \<le> round_double q"
proof -
  have "round_double (10376293541461623 / 2 ^ 60) \<le> round_double q"
    using assms by (intro round_double_mono) simp_all
  then show ?thesis by (simp only: rd_threshold)
qed

lemma rd_times_100_hi:
  assumes "5188146770730812 / 2 ^ 59 \<le> m"
  shows "8106479329266894 / 2 ^ 53 \<le> round_double (m * 100)"
proof -
  have v: "round_double (5188146770730812 / 2 ^ 59 * 100) = 8106479329266894 / 2 ^ 53"
    using round_double_at[of "- 53" "5188146770730812 / 2 ^ 59 * 100" 8106479329266894] by simp
  have "round_double (5188146770730812 / 2 ^ 59 * 100) \<le> round_double (m * 100)"
    using assms by (intro round_double_mono) simp_all
  then show ?thesis by (simp only: v)
qed

lemma rd_times_100_lo:
  assumes "0 \<le> m" "m \<le> 5188146770730811 / 2 ^ 59"
  shows "round_double (m * 100) \<le> 8106479329266892 / 2 ^ 53"
proof -
  have v: "round_double (5188146770730811 / 2 ^ 59 * 100) = 8106479329266892 / 2 ^ 53"
    using round_double_at[of "- 53" "5188146770730811 / 2 ^ 59 * 100" 8106479329266892] by simp
  have "round_double (m * 100) \<le> round_double (5188146770730811 / 2 ^ 59 * 100)"
    using assms by (intro round_double_mono) simp_all
  then show ?thesis by (simp only: v)
qed

lemma round_double_subnormal:
  "0 < x \<Longrightarrow> x < 2 powi (- 1022) \<Longrightarrow>
     round_double x = of_int (round_half_even (x / 2 powi (- 1074))) * 2 powi (- 1074)"
  by (simp only: round_double_alt ulp_exp_subnormal)

lemma rd_pos_min:
  assumes "0 < round_double x" shows "1 / 2 ^ 1074 \<le> round_double x"
proof -
  let ?k = "round_half_even (x / 2 powi ulp_exp x)"
  have eq: "round_double x = of_int ?k * 2 powi ulp_exp x" by (rule round_double_alt)
  have "0 < (of_int ?k :: rat) * 2 powi ulp_exp x" using assms by (simp only: eq)
  then have "0 < (of_int ?k :: rat)" using pow2_pos[of "ulp_exp x"]
    by (simp only: zero_less_mult_pos2)
  then have "1 \<le> ?k" by simp
  then have "(1::rat) \<le> of_int ?k" by simp
  then have "1 * 2 powi ulp_exp x \<le> of_int ?k * (2::rat) powi ulp_exp x"
    by (intro mult_right_mono) simp_all
  then have a: "2 powi ulp_exp x \<le> round_double x" by (simp only: eq mult_1)
  have b: "(2::rat) powi (- 1074) \<le> 2 powi ulp_exp x"
    using ulp_exp_ge[of x] by (rule pow2_le)
  have c: "(1::rat) / 2 ^ 1074 = 2 powi (- 1074)" by (simp add: power_int_minus_divide)
  from b a show ?thesis unfolding c by (rule order_trans)
qed

lemma rd_tiny: "round_double (1 / 2 ^ 1075) = 0"
proof -
  have "round_double (1 / 2 ^ 1075) =
      of_int (round_half_even ((1 / 2 ^ 1075) / 2 powi (- 1074))) * 2 powi (- 1074)"
    by (rule round_double_subnormal) simp_all
  moreover have "(1 / 2 ^ 1075) / 2 powi (- 1074) = (of_int 0 + 1 / 2 :: rat)" by simp
  ultimately show ?thesis by (simp only: rhe_tie) simp
qed

lemma rd_pos_iff:
  assumes "0 \<le> x" shows "0 < round_double x \<longleftrightarrow> 1 / 2 ^ 1075 < x"
proof
  assume p: "0 < round_double x"
  show "1 / 2 ^ 1075 < x"
  proof (rule ccontr)
    assume "\<not> 1 / 2 ^ 1075 < x"
    then have "round_double x \<le> round_double (1 / 2 ^ 1075)"
      using assms by (intro round_double_mono) simp_all
    with p show False by (simp only: rd_tiny)
  qed
next
  assume g: "1 / 2 ^ 1075 < x"
  then have x: "0 < x" by (simp add: less_trans[rotated])
  show "0 < round_double x"
  proof (cases "x < 2 powi (- 1022)")
    case True
    have "of_int 1 - 1 / 2 < x / 2 powi (- 1074)" using g by simp
    then have "1 \<le> round_half_even (x / 2 powi (- 1074))" by (rule rhe_greater)
    then have "0 < (of_int (round_half_even (x / 2 powi (- 1074))) :: rat)" by simp
    then show ?thesis
      by (simp only: round_double_subnormal[OF x True] zero_less_mult_iff pow2_pos simp_thms)
  next
    case False
    then have le: "2 powi (- 1022) \<le> x" by simp
    have ex: "round_double (2 powi (- 1022)) = 2 powi (- 1022)"
      by (rule round_double_exact[of "- 1074" _ "2 ^ 52"]) simp_all
    have "round_double (2 powi (- 1022)) \<le> round_double x"
      using le by (intro round_double_mono) simp_all
    then have "(2::rat) powi (- 1022) \<le> round_double x" by (simp only: ex)
    then show ?thesis using pow2_pos[of "- 1022"] by linarith
  qed
qed

lemma rd_max_tie: "round_double (2 ^ 1024 - 2 ^ 970) = 2 ^ 1024"
  using round_double_tie[of 971 "2 ^ 1024 - 2 ^ 970" "2 ^ 53 - 1"] by simp

lemma rd_pow_1023: "round_double (2 ^ 1023) = 2 ^ 1023"
  using round_double_exact[of 971 "2 ^ 1023" "2 ^ 52"] by simp

lemma rd_overflow_iff:
  assumes "0 \<le> x" shows "2 ^ 1024 \<le> round_double x \<longleftrightarrow> 2 ^ 1024 - 2 ^ 970 \<le> x"
proof
  assume "2 ^ 1024 - 2 ^ 970 \<le> x"
  then have "round_double (2 ^ 1024 - 2 ^ 970) \<le> round_double x"
    by (intro round_double_mono) simp_all
  then show "2 ^ 1024 \<le> round_double x" by (simp only: rd_max_tie)
next
  assume o: "2 ^ 1024 \<le> round_double x"
  show "2 ^ 1024 - 2 ^ 970 \<le> x"
  proof (rule ccontr)
    assume "\<not> 2 ^ 1024 - 2 ^ 970 \<le> x"
    then have lt: "x < 2 ^ 1024 - 2 ^ 970" by simp
    show False
    proof (cases "x < 2 ^ 1023")
      case True
      then have "round_double x \<le> round_double (2 ^ 1023)"
        using assms by (intro round_double_mono) simp_all
      then have "round_double x \<le> 2 ^ 1023" by (simp only: rd_pow_1023)
      with o show False by simp
    next
      case False
      then have lo: "2 ^ 1023 \<le> x" by simp
      have "round_double x \<le> of_int (2 ^ 53 - 1) * 2 powi 971"
        using lo lt by (intro round_double_upper) simp_all
      with o show False by simp
    qed
  qed
qed

section \<open>Properties of the registry, the company and the mutators\<close>

subsection \<open>Dictionaries\<close>

lemma map_of_dict_set: "map_of (dict_set k v d) = (map_of d)(k \<mapsto> v)"
  by (induction d) (auto simp: fun_eq_iff)

lemma fst_set_dict_set: "fst ` set (dict_set k v d) = insert k (fst ` set d)"
proof -
  have "fst ` set (dict_set k v d) = dom (map_of (dict_set k v d))"
    by (simp add: dom_map_of_conv_image_fst)
  also have "\<dots> = insert k (dom (map_of d))"
    by (simp add: map_of_dict_set)
  finally show ?thesis by (simp add: dom_map_of_conv_image_fst)
qed

lemma distinct_dict_set: "distinct (map fst d) \<Longrightarrow> distinct (map fst (dict_set k v d))"
  by (induction d) (auto simp: fst_set_dict_set)

subsection \<open>Registry\<close>

lemma registry_keys_no_str: "PyStr name \<notin> set (registry_keys r)"
  by (auto simp: registry_keys_def)

lemma registry_values_no_str: "PyStr ticker \<notin> set (registry_values r)"
  by (auto simp: registry_values_def)

text \<open>
  A string is never equal to an \<^verbatim>\<open>int\<close> key or to a tuple, so neither membership test of
  \<^verbatim>\<open>register_company\<close> can succeed: every call registers.
\<close>

lemma register_company_never_refuses:
  "register_company r name ticker =
     (Some (next_company_id r),
      r\<lparr>next_company_id := next_company_id r + 1,
        registry := dict_set (next_company_id r) (name, ticker) (registry r)\<rparr>)"
  by (simp add: register_company_def registry_keys_no_str registry_values_no_str Let_def)

text \<open>
  C8. The claim: \<^verbatim>\<open>register_company\<close> returns \<^verbatim>\<open>None\<close> and changes nothing when the name or
  the ticker is already registered. The code at such an input: after \<^verbatim>\<open>("Acme", "ACM")\<close> is
  registered, both its name and its ticker are taken, and registering the same pair again
  returns the fresh id 2 and adds a second entry.
\<close>

theorem register_company_duplicate_accepted:
  "name_taken (snd (register_company Registry_init ''Acme'' ''ACM'')) ''Acme'' \<and>
   ticker_taken (snd (register_company Registry_init ''Acme'' ''ACM'')) ''ACM'' \<and>
   register_company (snd (register_company Registry_init ''Acme'' ''ACM'')) ''Acme'' ''ACM'' =
     (Some 2, \<lparr>registry = [(1, ''Acme'', ''ACM''), (2, ''Acme'', ''ACM'')], next_company_id = 3\<rparr>)"
  by (simp add: register_company_def registry_keys_def registry_values_def Registry_init_def
      name_taken_def ticker_taken_def Let_def)

subsection \<open>Company\<close>

lemma efficiency_loop_sums:
  "efficiency_loop outs cap (a, b) = (a + total_output_of outs cap, b + total_capacity_of cap)"
  by (induction cap arbitrary: a b)
    (auto simp: total_output_of_def total_capacity_of_def outputs_get_def)

lemma literal_0_9: "to_double False (9 / 10) = Finite False (8106479329266893 / 2 ^ 53)"
  by (simp add: to_double_def lit_0_9)

lemma truediv_result:
  assumes "b \<noteq> 0"
  shows "truediv a b =
     (if 2 ^ 1024 - 2 ^ 970 \<le> \<bar>of_int a / of_int b :: rat\<bar> then Inl OverflowError
      else Inr (Finite ((a < 0) \<noteq> (b < 0)) (round_double \<bar>of_int a / of_int b\<bar>)))"
proof -
  have q: "(of_int \<bar>a\<bar> / of_int \<bar>b\<bar> :: rat) = \<bar>of_int a / of_int b\<bar>" by simp
  have "0 \<le> \<bar>of_int a / of_int b :: rat\<bar>" by simp
  from rd_overflow_iff[OF this] show ?thesis
    using assms by (simp only: truediv_def q Let_def if_False)
qed

lemma set_status_int:
  "set_status (IntNum n) = (if 1 \<le> n then ''Operational'' else ''Idle'')"
  by (simp add: set_status_def literal_0_9 num_ge_def num_gt_def)

lemma double_ge_0_9:
  assumes "is_double m" "9 / 10 \<le> m" shows "8106479329266893 / 2 ^ 53 \<le> m"
proof (rule ccontr)
  assume "\<not> 8106479329266893 / 2 ^ 53 \<le> m"
  then have lt: "m < 8106479329266893 / 2 ^ 53" by simp
  have eq: "round_double m = of_int (round_half_even (m / 2 powi (- 53))) * 2 powi (- 53)"
    using assms(2) lt by (intro round_double_normal) simp_all
  define k where "k = round_half_even (m / 2 powi (- 53))"
  from assms(1) eq have m: "m = of_int k * 2 powi (- 53)" by (simp add: is_double_def k_def)
  from assms(2) have "(8106479329266892::rat) < of_int k" by (simp add: m)
  then have "8106479329266892 < k" by linarith
  then have "8106479329266893 \<le> k" by simp
  then have "(8106479329266893::rat) \<le> of_int k" by linarith
  with lt show False by (simp add: m)
qed

lemma set_status_float:
  assumes "is_double m"
  shows "set_status (FloatNum (Finite s m)) =
     (if \<not> s \<and> 9 / 10 \<le> m then ''Operational''
      else if \<not> s \<and> 0 < m then ''Limited'' else ''Idle'')"
proof -
  have m0: "0 \<le> m" using assms by (simp add: is_double_def)
  have a: "8106479329266893 / 2 ^ 53 \<le> m \<longleftrightarrow> 9 / 10 \<le> m"
    using double_ge_0_9[OF assms] by auto
  show ?thesis using m0 a
    by (auto simp: set_status_def literal_0_9 num_ge_def num_gt_def)
qed

lemma set_status_special:
  "set_status (FloatNum (Infinity s)) = (if s then ''Idle'' else ''Operational'')"
  "set_status (FloatNum NaN) = ''Idle''"
  by (simp_all add: set_status_def literal_0_9 num_ge_def num_gt_def)

lemma set_status_finite:
  "0 \<le> m \<Longrightarrow> set_status (FloatNum (Finite s m)) =
     (if \<not> s \<and> 8106479329266893 / 2 ^ 53 \<le> m then ''Operational''
      else if \<not> s \<and> 0 < m then ''Limited'' else ''Idle'')"
  by (auto simp: set_status_def literal_0_9 num_ge_def num_gt_def)

lemma tiny_times_100:
  assumes "0 \<le> m"
  shows "1 / 2 ^ 1075 < round_double m * 100 \<longleftrightarrow> 1 / 2 ^ 1075 < m"
proof -
  define t :: rat where "t = 1 / 2 ^ 1075"
  have t: "0 < t" by (simp add: t_def)
  have t2: "(1::rat) / 2 ^ 1074 = 2 * t" by (simp add: t_def)
  have nn: "0 \<le> round_double m" using assms by (rule round_double_nonneg)
  have "t < round_double m * 100 \<longleftrightarrow> 0 < round_double m"
  proof
    assume "t < round_double m * 100"
    with t show "0 < round_double m" using nn by (cases "round_double m = 0") simp_all
  next
    assume "0 < round_double m"
    from rd_pos_min[OF this] have "2 * t \<le> round_double m" by (simp only: t2)
    with t show "t < round_double m * 100" by linarith
  qed
  also have "\<dots> \<longleftrightarrow> t < m" unfolding t_def using assms by (rule rd_pos_iff)
  finally show ?thesis by (simp only: t_def)
qed

lemma status_positive:
  assumes "0 \<le> q"
  shows "set_status (FloatNum (to_double False (round_double q * 100))) =
     (if 10376293541461623 / 2 ^ 60 \<le> q then ''Operational''
      else if 1 / 2 ^ 1075 < q then ''Limited'' else ''Idle'')"
proof -
  define m where "m = round_double q"
  define m2 where "m2 = round_double (m * 100)"
  have m0: "0 \<le> m" unfolding m_def using assms by (rule round_double_nonneg)
  then have y0: "0 \<le> m * 100" by simp
  have m20: "0 \<le> m2" unfolding m2_def using y0 by (rule round_double_nonneg)
  have td: "to_double False (m * 100) = (if 2 ^ 1024 \<le> m2 then Infinity False else Finite False m2)"
    by (simp only: to_double_def m2_def Let_def)
  show ?thesis
  proof (cases "10376293541461623 / 2 ^ 60 \<le> q")
    case True
    then have "5188146770730812 / 2 ^ 59 \<le> m" unfolding m_def by (rule rd_above_threshold)
    then have "8106479329266894 / 2 ^ 53 \<le> m2" unfolding m2_def by (rule rd_times_100_hi)
    then have "8106479329266893 / 2 ^ 53 \<le> m2" by simp
    then have "set_status (FloatNum (to_double False (m * 100))) = ''Operational''"
      using m20 by (simp only: td set_status_finite set_status_special split: if_splits) simp
    then show ?thesis using True by (simp only: m_def if_True)
  next
    case False
    then have lt: "q < 10376293541461623 / 2 ^ 60" by simp
    have "m \<le> 5188146770730811 / 2 ^ 59" unfolding m_def using assms lt by (rule rd_below_threshold)
    with m0 have hi: "m2 \<le> 8106479329266892 / 2 ^ 53" unfolding m2_def by (rule rd_times_100_lo)
    then have no: "\<not> 2 ^ 1024 \<le> m2" by simp
    from hi have nl: "\<not> 8106479329266893 / 2 ^ 53 \<le> m2" by simp
    have pos: "0 < m2 \<longleftrightarrow> 1 / 2 ^ 1075 < q"
    proof -
      have "0 < m2 \<longleftrightarrow> 1 / 2 ^ 1075 < m * 100" unfolding m2_def using y0 by (rule rd_pos_iff)
      also have "\<dots> \<longleftrightarrow> 1 / 2 ^ 1075 < q" unfolding m_def using assms by (rule tiny_times_100)
      finally show ?thesis .
    qed
    have "set_status (FloatNum (to_double False (m * 100))) =
        (if 1 / 2 ^ 1075 < q then ''Limited'' else ''Idle'')"
      using no nl pos m20 by (simp only: td set_status_finite if_False simp_thms)
    then show ?thesis using False by (simp only: m_def if_False)
  qed
qed

lemma status_negative:
  assumes "0 \<le> q"
  shows "set_status (FloatNum (to_double True (round_double q * 100))) = ''Idle''"
proof -
  have "0 \<le> round_double q * 100" using round_double_nonneg[OF assms] by simp
  then have "0 \<le> round_double (round_double q * 100)" by (rule round_double_nonneg)
  then show ?thesis
    by (simp add: to_double_def Let_def set_status_finite set_status_special del: round_double_0)
qed

lemma rd_9_1000_times_100:
  "round_double (round_double (9 / 1000) * 100) = 8106479329266892 / 2 ^ 53"
  unfolding rd_9_1000
  using round_double_at[of "- 53" "5188146770730811 / 2 ^ 59 * 100" 8106479329266892] by simp

lemma calculate_efficiency_value:
  "calculate_efficiency outs cap =
     (if total_capacity_of cap = 0 then Inr (IntNum 0)
      else if 2 ^ 1024 - 2 ^ 970 \<le> \<bar>of_int (total_output_of outs cap) / of_int (total_capacity_of cap) :: rat\<bar>
        then Inl OverflowError
      else Inr (FloatNum (to_double ((total_output_of outs cap < 0) \<noteq> (total_capacity_of cap < 0))
             (round_double \<bar>of_int (total_output_of outs cap) / of_int (total_capacity_of cap)\<bar> * 100))))"
proof (cases "total_capacity_of cap = 0")
  case True
  then show ?thesis by (simp add: calculate_efficiency_def efficiency_loop_sums)
next
  case False
  have "calculate_efficiency outs cap =
      (case truediv (total_output_of outs cap) (total_capacity_of cap) of
         Inl e \<Rightarrow> Inl e
       | Inr q \<Rightarrow> Inr (FloatNum (float_mul q (Finite False 100))))"
    using False by (simp add: calculate_efficiency_def efficiency_loop_sums)
  then show ?thesis using False by (simp add: truediv_result[OF False])
qed

lemma Company_init_status:
  fixes ins outs cap invt :: "(string \<times> int) list"
  defines "share \<equiv> (of_int (total_output_of outs cap) / of_int (total_capacity_of cap) :: rat)"
  shows "map_sum id status (Company_init ins outs cap invt) =
     (if total_capacity_of cap = 0 then Inr ''Idle''
      else if 2 ^ 1024 - 2 ^ 970 \<le> \<bar>share\<bar> then Inl OverflowError
      else Inr (if 10376293541461623 / 2 ^ 60 \<le> share then ''Operational''
                else if 1 / 2 ^ 1075 < share then ''Limited'' else ''Idle''))"
proof (cases "total_capacity_of cap = 0")
  case True
  then show ?thesis
    by (simp add: Company_init_def calculate_efficiency_value set_status_int)
next
  case nz: False
  show ?thesis
  proof (cases "2 ^ 1024 - 2 ^ 970 \<le> \<bar>share\<bar>")
    case True
    then show ?thesis using nz unfolding share_def
      by (simp add: Company_init_def calculate_efficiency_value)
  next
    case no: False
    define sg where "sg = ((total_output_of outs cap < 0) \<noteq> (total_capacity_of cap < 0))"
    have q0: "0 \<le> \<bar>share\<bar>" by simp
    have st: "map_sum id status (Company_init ins outs cap invt) =
        Inr (set_status (FloatNum (to_double sg (round_double \<bar>share\<bar> * 100))))"
      using nz no unfolding share_def sg_def
      by (simp add: Company_init_def calculate_efficiency_value)
    have t: "(0::rat) < 1 / 2 ^ 1075" by simp
    have T: "(0::rat) < 10376293541461623 / 2 ^ 60" by simp
    have val: "set_status (FloatNum (to_double sg (round_double \<bar>share\<bar> * 100))) =
        (if 10376293541461623 / 2 ^ 60 \<le> share then ''Operational''
         else if 1 / 2 ^ 1075 < share then ''Limited'' else ''Idle'')"
    proof (cases sg)
      case True
      then have "share \<le> 0"
        unfolding sg_def share_def by (auto simp: divide_le_0_iff)
      then have "\<not> 10376293541461623 / 2 ^ 60 \<le> share" "\<not> 1 / 2 ^ 1075 < share"
        using t T by linarith+
      then show ?thesis using True status_negative[OF q0] by (simp only: if_False)
    next
      case False
      then have "0 \<le> share"
        unfolding sg_def share_def by (auto simp: zero_le_divide_iff)
      then have "\<bar>share\<bar> = share" by simp
      then show ?thesis using False status_positive[of share] \<open>0 \<le> share\<close> by (simp only:)
    qed
    show ?thesis using nz no by (simp only: st val if_False)
  qed
qed

text \<open>
  C10 as stated fails: \<^verbatim>\<open>calculate_efficiency\<close> is not total. With an output of
  \<open>10 ^ 400\<close> units and a capacity of 1 the quotient is beyond the doubles and the division
  raises \<^verbatim>\<open>OverflowError\<close>.
\<close>

theorem calculate_efficiency_overflow:
  "calculate_efficiency [(''Steel'', 10 ^ 400)] [(''Steel'', 1)] = Inl OverflowError"
  by (simp add: calculate_efficiency_value total_capacity_of_def total_output_of_def)

text \<open>
  C10, amended. \<^verbatim>\<open>calculate_efficiency\<close> never raises \<^verbatim>\<open>ZeroDivisionError\<close>. The output
  is summed over the products of \<^verbatim>\<open>capacity\<close> only, a product missing from \<^verbatim>\<open>outputs\<close>
  counting 0. When the summed capacity is 0 (as for an empty \<^verbatim>\<open>capacity\<close>) the result is
  the integer 0, with no division. Otherwise the call raises \<^verbatim>\<open>OverflowError\<close> when the
  magnitude of summed output over summed capacity is at least \<open>2 ^ 1024 - 2 ^ 970\<close>, and
  else returns the float product with 100 of the double nearest to that quotient.
\<close>

theorem calculate_efficiency_result:
  fixes outs cap :: "(string \<times> int) list"
  defines "total_output \<equiv> total_output_of outs cap"
    and "total_capacity \<equiv> total_capacity_of cap"
  shows "calculate_efficiency outs cap \<noteq> Inl ZeroDivisionError \<and>
     calculate_efficiency outs cap =
       (if total_capacity = 0 then Inr (IntNum 0)
        else if 2 ^ 1024 - 2 ^ 970 \<le> \<bar>of_int total_output / of_int total_capacity :: rat\<bar>
          then Inl OverflowError
        else Inr (FloatNum (to_double ((total_output < 0) \<noteq> (total_capacity < 0))
               (round_double \<bar>of_int total_output / of_int total_capacity\<bar> * 100))))"
  unfolding total_output_def total_capacity_def
  by (simp only: calculate_efficiency_value) simp

text \<open>
  Instances of the amended C10: an empty capacity, capacities that sum to 0, and a product
  of \<^verbatim>\<open>outputs\<close> (Coal) that \<^verbatim>\<open>capacity\<close> does not list, before the one it does,
  together with one (Iron) that \<^verbatim>\<open>outputs\<close> lacks.
\<close>

theorem calculate_efficiency_result_witness:
  "calculate_efficiency [(''Steel'', 50)] [] = Inr (IntNum 0) \<and>
   calculate_efficiency [(''Steel'', 50)] [(''Steel'', 40), (''Iron'', - 40)] = Inr (IntNum 0) \<and>
   calculate_efficiency [(''Coal'', 7), (''Steel'', 30)] [(''Steel'', 40), (''Iron'', 20)] =
     Inr (FloatNum (Finite False 50)) \<and>
   calculate_efficiency [(''Coal'', 7), (''Steel'', 30)] [(''Steel'', 40), (''Iron'', 20)] \<noteq>
     Inl ZeroDivisionError"
proof -
  have h: "round_double (1 / 2) = 1 / 2"
    using round_double_exact[of "- 53" "1 / 2" "2 ^ 52"] by simp
  have f: "round_double 50 = 50"
    using round_double_exact[of "- 47" 50 "50 * 2 ^ 47"] by simp
  have "to_double False (round_double \<bar>1 / 2\<bar> * 100) = Finite False 50"
    by (simp add: h f to_double_def)
  then show ?thesis
    using calculate_efficiency_result [where outs = "[(''Steel'', 50)]" and cap = "[]"]
      calculate_efficiency_result [where outs = "[(''Steel'', 50)]"
        and cap = "[(''Steel'', 40), (''Iron'', - 40)]"]
      calculate_efficiency_result [where outs = "[(''Coal'', 7), (''Steel'', 30)]"
        and cap = "[(''Steel'', 40), (''Iron'', 20)]"]
    by (simp add: total_capacity_of_def total_output_of_def)
qed




subsection \<open>Edges under the mutators\<close>

lemma has_edge_iff: "has_edge g u v \<longleftrightarrow> edge_ref g u v \<noteq> None"
  by (simp add: has_edge_def edge_ref_def adj_of_def split: option.splits)

lemma has_edge_edges: "has_edge g u v \<longleftrightarrow> (u, v) \<in> edges g"
  by (simp add: has_edge_iff edges_def)

lemma adj_of_set_adj:
  "adj_of (set_adj g u v r) x = (if x = u then dict_set v r (adj_of g u) else adj_of g x)"
  by (simp add: adj_of_def set_adj_def map_of_dict_set)

lemma edge_ref_set_adj:
  "edge_ref (set_adj g u v r) x y = (if x = u \<and> y = v then Some r else edge_ref g x y)"
  by (simp add: edge_ref_def adj_of_set_adj map_of_dict_set)

lemma adj_of_store [simp]: "adj_of (g\<lparr>g_store := st\<rparr>) x = adj_of g x"
  by (simp add: adj_of_def)

lemma edge_ref_store [simp]: "edge_ref (g\<lparr>g_store := st\<rparr>) x y = edge_ref g x y"
  by (simp add: edge_ref_def)

lemma adj_of_touch_node:
  "adj_of (touch_node g n) x = (if x = n \<and> \<not> has_node g n then [] else adj_of g x)"
  by (simp add: touch_node_def adj_of_def map_of_dict_set)

lemma edge_ref_touch_node:
  "edge_ref (touch_node g n) x y = (if x = n \<and> \<not> has_node g n then None else edge_ref g x y)"
  by (simp add: edge_ref_def adj_of_touch_node)

lemma adj_of_add_node:
  "adj_of (add_node g n attr) x = (if x = n \<and> \<not> has_node g n then [] else adj_of g x)"
  by (auto simp: add_node_def adj_of_def map_of_dict_set has_node_def split: option.splits)

lemma edge_ref_add_node:
  "edge_ref (add_node g n attr) x y = (if x = n \<and> \<not> has_node g n then None else edge_ref g x y)"
  by (simp add: edge_ref_def adj_of_add_node)

lemma set_accessibility_result:
  "set_accessibility g a b acc =
     Inr (case edge_ref g a b of
            None \<Rightarrow> g
          | Some r \<Rightarrow> g\<lparr>g_store := (g_store g)[r := (g_store g ! r)\<lparr>accessible := acc\<rparr>]\<rparr>)"
  by (simp add: set_accessibility_def has_edge_def edge_ref_def adj_of_def split: option.splits)

lemma apply_op_SetAccessibility:
  "apply_op g (SetAccessibility a b acc) =
     (case edge_ref g a b of
        None \<Rightarrow> g
      | Some r \<Rightarrow> g\<lparr>g_store := (g_store g)[r := (g_store g ! r)\<lparr>accessible := acc\<rparr>]\<rparr>)"
  by (simp add: set_accessibility_result)

lemma edge_ref_set_accessibility:
  "edge_ref (apply_op g (SetAccessibility a b acc)) x y = edge_ref g x y"
  unfolding apply_op_SetAccessibility by (simp split: option.splits)

lemma edge_ref_add_edge:
  "edge_ref (add_edge g u v attr) x y \<noteq> None \<Longrightarrow>
     (x = u \<and> y = v) \<or> (x = v \<and> y = u) \<or> edge_ref g x y \<noteq> None"
  by (auto simp: add_edge_def Let_def edge_ref_set_adj edge_ref_touch_node
      split: option.splits if_splits)

lemma edges_add_connection:
  "edges (add_connection g a b dst rt acc) \<subseteq> edges g \<union> {(a, b), (b, a)}"
proof
  fix e assume e: "e \<in> edges (add_connection g a b dst rt acc)"
  obtain x y where xy: "e = (x, y)" by (cases e)
  with e have "edge_ref (add_edge g a b \<lparr>distance = dst, route_type = rt, accessible = acc\<rparr>) x y \<noteq> None"
    by (simp add: edges_def add_connection_def)
  from edge_ref_add_edge[OF this] show "e \<in> edges g \<union> {(a, b), (b, a)}"
    by (auto simp: edges_def xy)
qed

lemma edges_add_city: "edges (add_city g n attr) \<subseteq> edges g"
  by (auto simp: edges_def add_city_def edge_ref_add_node split: if_splits)

lemma edges_set_accessibility: "edges (apply_op g (SetAccessibility a b acc)) = edges g"
  by (simp only: edges_def edge_ref_set_accessibility)

text \<open>
  C6. When there is no edge from \<open>a\<close> to \<open>b\<close>, \<^verbatim>\<open>set_accessibility(a, b, accessible)\<close>
  raises nothing: it returns (\<open>Inr\<close>), although either subscript of
  \<^verbatim>\<open>self.graph[city_a][city_b]\<close> would raise \<^verbatim>\<open>KeyError\<close> there, because \<^verbatim>\<open>has_edge\<close>
  is tested first. The graph state it returns, nodes, adjacency and edge attributes, is
  the one before the call; in particular no edge is created.
\<close>

theorem set_accessibility_no_edge:
  "(a, b) \<notin> edges m \<Longrightarrow> set_accessibility m a b acc = Inr m"
  by (simp add: set_accessibility_def has_edge_edges)

text \<open>
  Instances: cities 1 and 3 exist and the only edge joins 1 and 2; then city 7, which was
  never added, so that the first subscript alone would raise.
\<close>

theorem set_accessibility_no_edge_witness:
  "(1, 3) \<notin> edges (run_ops [AddCity 1 [], AddCity 3 [], AddConnection 1 2 100 ''land'' True]) \<and>
   set_accessibility (run_ops [AddCity 1 [], AddCity 3 [], AddConnection 1 2 100 ''land'' True]) 1 3 False =
     Inr (run_ops [AddCity 1 [], AddCity 3 [], AddConnection 1 2 100 ''land'' True]) \<and>
   (7, 1) \<notin> edges (run_ops [AddCity 1 [], AddCity 3 [], AddConnection 1 2 100 ''land'' True]) \<and>
   set_accessibility (run_ops [AddCity 1 [], AddCity 3 [], AddConnection 1 2 100 ''land'' True]) 7 1 True =
     Inr (run_ops [AddCity 1 [], AddCity 3 [], AddConnection 1 2 100 ''land'' True])"
proof -
  have "(1, 3) \<notin> edges (run_ops [AddCity 1 [], AddCity 3 [], AddConnection 1 2 100 ''land'' True])"
    and "(7, 1) \<notin> edges (run_ops [AddCity 1 [], AddCity 3 [], AddConnection 1 2 100 ''land'' True])"
    by (simp_all add: edges_def edge_ref_def adj_of_def run_ops_def Map_init_def empty_graph_def
        add_city_def add_node_def add_connection_def add_edge_def touch_node_def has_node_def
        set_adj_def dict_update_def)
  then show ?thesis using set_accessibility_no_edge by blast
qed

lemma run_ops_Nil: "run_ops [] = Map_init"
  by (simp add: run_ops_def)

lemma run_ops_snoc: "run_ops (ops @ [x]) = apply_op (run_ops ops) x"
  by (simp add: run_ops_def)

lemma apply_op_no_self_loop:
  "no_self_loop g \<Longrightarrow> proper_endpoints x \<Longrightarrow> no_self_loop (apply_op g x)"
proof (cases x)
  case (AddCity n attr)
  assume "no_self_loop g"
  then show ?thesis using edges_add_city[of g n attr] AddCity
    by (auto simp: no_self_loop_def)
next
  case (AddConnection a b dst rt acc)
  assume "no_self_loop g" "proper_endpoints x"
  then show ?thesis using edges_add_connection[of g a b dst rt acc] AddConnection
    by (auto simp: no_self_loop_def proper_endpoints_def)
next
  case (SetAccessibility a b acc)
  assume "no_self_loop g"
  then show ?thesis unfolding SetAccessibility
    by (simp only: no_self_loop_def edges_set_accessibility)
qed

lemma edges_Map_init: "edges Map_init = {}"
  by (simp add: edges_def edge_ref_def adj_of_def Map_init_def empty_graph_def)

text \<open>
  C7, amended. \<^verbatim>\<open>add_connection\<close> checks nothing, and \<^verbatim>\<open>Graph.add_edge(a, a)\<close> makes a
  self-loop. In every state reached by operations whose \<^verbatim>\<open>add_connection\<close> calls are each
  given two different cities, no edge connects a city to itself.
\<close>

theorem no_self_loop_proper:
  "\<forall>x \<in> set ops. proper_endpoints x \<Longrightarrow> \<forall>(u, v) \<in> edges (run_ops ops). u \<noteq> v"
proof (induction ops rule: rev_induct)
  case Nil
  show ?case by (simp add: run_ops_Nil edges_Map_init)
next
  case (snoc x ops)
  then have "no_self_loop (run_ops ops)" "proper_endpoints x"
    by (simp_all add: no_self_loop_def)
  then have "no_self_loop (run_ops (ops @ [x]))"
    unfolding run_ops_snoc by (rule apply_op_no_self_loop)
  then show ?case by (simp add: no_self_loop_def)
qed

text \<open>
  C7 as stated fails: after \<^verbatim>\<open>add_connection(0, 0, 5, "land")\<close> on the empty map the graph
  has the edge from 0 to 0.
\<close>

theorem self_loop_counterexample:
  "\<not> (\<forall>(u, v) \<in> edges (run_ops [AddConnection 0 0 5 ''land'' True]). u \<noteq> v)"
proof -
  have "(0, 0) \<in> edges (run_ops [AddConnection 0 0 5 ''land'' True])"
    by (simp add: edges_def edge_ref_def adj_of_def run_ops_def Map_init_def empty_graph_def
        add_connection_def add_edge_def touch_node_def has_node_def set_adj_def)
  then show ?thesis by blast
qed

text \<open>An instance of the amended C7.\<close>

theorem no_self_loop_proper_witness:
  "list_all proper_endpoints
     [AddCity 1 [], AddConnection 1 2 100 ''land'' True, SetAccessibility 1 2 False] \<and>
   no_self_loop (run_ops [AddCity 1 [], AddConnection 1 2 100 ''land'' True,
      SetAccessibility 1 2 False])"
proof -
  have h: "\<forall>x \<in> set [AddCity 1 [], AddConnection 1 2 100 ''land'' True, SetAccessibility 1 2 False].
      proper_endpoints x"
    by (simp add: proper_endpoints_def)
  from no_self_loop_proper [OF h] h show ?thesis
    by (simp add: no_self_loop_def)
qed

subsection \<open>The graph stays well-formed\<close>

lemma has_node_store [simp]: "has_node (g\<lparr>g_store := st\<rparr>) x = has_node g x"
  by (simp add: has_node_def)

lemma has_node_set_adj [simp]: "has_node (set_adj g u v r) x = has_node g x"
  by (simp add: has_node_def set_adj_def)

lemma has_node_touch_node: "has_node (touch_node g n) x \<longleftrightarrow> x = n \<or> has_node g x"
  by (auto simp: touch_node_def has_node_def map_of_dict_set)

lemma has_node_add_node: "has_node (add_node g n attr) x \<longleftrightarrow> x = n \<or> has_node g x"
  by (auto simp: add_node_def has_node_def map_of_dict_set split: option.splits)

lemma adj_key_set_adj:
  "map_of (g_adj (set_adj g u v r)) x = None \<longleftrightarrow> x \<noteq> u \<and> map_of (g_adj g) x = None"
  by (simp add: set_adj_def map_of_dict_set)

lemma adj_key_touch_node:
  "map_of (g_adj (touch_node g n)) x = None \<longleftrightarrow>
     (x \<noteq> n \<or> has_node g n) \<and> map_of (g_adj g) x = None"
  by (simp add: touch_node_def map_of_dict_set)

lemma adj_key_add_node:
  "map_of (g_adj (add_node g n attr)) x = None \<longleftrightarrow>
     (x \<noteq> n \<or> has_node g n) \<and> map_of (g_adj g) x = None"
  by (auto simp: add_node_def map_of_dict_set has_node_def split: option.splits)

lemma store_set_adj [simp]: "g_store (set_adj g u v r) = g_store g"
  by (simp add: set_adj_def)

lemma store_touch_node [simp]: "g_store (touch_node g n) = g_store g"
  by (simp add: touch_node_def)

lemma store_add_node [simp]: "g_store (add_node g n attr) = g_store g"
  by (simp add: add_node_def split: option.splits)

lemma wf_graph_empty: "wf_graph Map_init"
  by (simp add: wf_graph_def Map_init_def empty_graph_def has_node_def adj_of_def edge_ref_def)

lemma wf_graphI:
  assumes "\<And>u. \<not> has_node g u \<longleftrightarrow> map_of (g_adj g) u = None"
    and "\<And>u. distinct (map fst (adj_of g u))"
    and "\<And>u v r. edge_ref g u v = Some r \<Longrightarrow> edge_ref g v u = Some r"
    and "\<And>u v r. edge_ref g u v = Some r \<Longrightarrow> r < length (g_store g)"
  shows "wf_graph g"
  unfolding wf_graph_def
proof (intro conjI allI impI)
  fix u show "has_node g u = (map_of (g_adj g) u \<noteq> None)" using assms(1)[of u] by auto
next
  fix u show "distinct (map fst (adj_of g u))" by (rule assms(2))
next
  fix u v r assume "edge_ref g u v = Some r"
  then show "edge_ref g v u = Some r" "r < length (g_store g)" by (rule assms(3), rule assms(4))
qed

lemma wf_graphD:
  assumes "wf_graph g"
  shows "\<not> has_node g u \<longleftrightarrow> map_of (g_adj g) u = None"
    and "distinct (map fst (adj_of g u))"
    and "edge_ref g u v = Some r \<Longrightarrow> edge_ref g v u = Some r"
    and "edge_ref g u v = Some r \<Longrightarrow> r < length (g_store g)"
proof -
  from assms have abc: "(\<forall>u. has_node g u \<longleftrightarrow> map_of (g_adj g) u \<noteq> None) \<and>
     (\<forall>u. distinct (map fst (adj_of g u))) \<and>
     (\<forall>u v r. edge_ref g u v = Some r \<longrightarrow> edge_ref g v u = Some r \<and> r < length (g_store g))"
    unfolding wf_graph_def .
  note a = conjunct1[OF abc] and b = conjunct1[OF conjunct2[OF abc]]
    and c = conjunct2[OF conjunct2[OF abc]]
  from a[rule_format, of u] show "\<not> has_node g u \<longleftrightarrow> map_of (g_adj g) u = None" by auto
  from b[rule_format, of u] show "distinct (map fst (adj_of g u))" .
  from c[rule_format, of u v r] show "edge_ref g u v = Some r \<Longrightarrow> edge_ref g v u = Some r"
    by (rule conjunct1)
  from c[rule_format, of u v r] show "edge_ref g u v = Some r \<Longrightarrow> r < length (g_store g)"
    by (rule conjunct2)
qed

lemma wf_edge_nodes:
  assumes "wf_graph g" "edge_ref g u v = Some r"
  shows "has_node g u" "has_node g v"
proof -
  have a: "has_node g x" if "edge_ref g x y = Some r'" for x y r'
  proof (rule ccontr)
    assume "\<not> has_node g x"
    then have "map_of (g_adj g) x = None" by (simp only: wf_graphD(1)[OF assms(1)])
    then have "adj_of g x = []" by (simp add: adj_of_def)
    with that show False by (simp add: edge_ref_def)
  qed
  from a[OF assms(2)] show "has_node g u" .
  from a[OF wf_graphD(3)[OF assms]] show "has_node g v" .
qed

lemma wf_touch_node: assumes "wf_graph g" shows "wf_graph (touch_node g n)"
proof (rule wf_graphI)
  fix u show "\<not> has_node (touch_node g n) u \<longleftrightarrow> map_of (g_adj (touch_node g n)) u = None"
    using wf_graphD(1)[OF assms] by (auto simp: has_node_touch_node adj_key_touch_node)
next
  fix u show "distinct (map fst (adj_of (touch_node g n) u))"
    using wf_graphD(2)[OF assms] by (simp add: adj_of_touch_node)
next
  fix u v r assume e: "edge_ref (touch_node g n) u v = Some r"
  then have e0: "edge_ref g u v = Some r" by (simp add: edge_ref_touch_node split: if_splits)
  from wf_edge_nodes[OF assms e0] wf_graphD(3)[OF assms e0]
  show "edge_ref (touch_node g n) v u = Some r" by (auto simp: edge_ref_touch_node)
  from wf_graphD(4)[OF assms e0] show "r < length (g_store (touch_node g n))" by simp
qed

lemma wf_add_node: assumes "wf_graph g" shows "wf_graph (add_node g n attr)"
proof (rule wf_graphI)
  fix u show "\<not> has_node (add_node g n attr) u \<longleftrightarrow> map_of (g_adj (add_node g n attr)) u = None"
    using wf_graphD(1)[OF assms] by (auto simp: has_node_add_node adj_key_add_node)
next
  fix u show "distinct (map fst (adj_of (add_node g n attr) u))"
    using wf_graphD(2)[OF assms] by (simp add: adj_of_add_node)
next
  fix u v r assume e: "edge_ref (add_node g n attr) u v = Some r"
  then have e0: "edge_ref g u v = Some r" by (simp add: edge_ref_add_node split: if_splits)
  from wf_edge_nodes[OF assms e0] wf_graphD(3)[OF assms e0]
  show "edge_ref (add_node g n attr) v u = Some r" by (auto simp: edge_ref_add_node)
  from wf_graphD(4)[OF assms e0] show "r < length (g_store (add_node g n attr))" by simp
qed

lemma wf_store_update:
  assumes "wf_graph g" "length st \<ge> length (g_store g)"
  shows "wf_graph (g\<lparr>g_store := st\<rparr>)"
proof (rule wf_graphI)
  fix u show "\<not> has_node (g\<lparr>g_store := st\<rparr>) u \<longleftrightarrow> map_of (g_adj (g\<lparr>g_store := st\<rparr>)) u = None"
    using wf_graphD(1)[OF assms(1)] by simp
next
  fix u show "distinct (map fst (adj_of (g\<lparr>g_store := st\<rparr>) u))"
    using wf_graphD(2)[OF assms(1)] by simp
next
  fix u v r assume e: "edge_ref (g\<lparr>g_store := st\<rparr>) u v = Some r"
  then have e0: "edge_ref g u v = Some r" by simp
  from wf_graphD(3)[OF assms(1) e0] show "edge_ref (g\<lparr>g_store := st\<rparr>) v u = Some r" by simp
  from wf_graphD(4)[OF assms(1) e0] assms(2) show "r < length (g_store (g\<lparr>g_store := st\<rparr>))" by simp
qed

lemma g_adj_store [simp]: "g_adj (g\<lparr>g_store := st\<rparr>) = g_adj g"
  by simp

lemma wf_link:
  assumes wf: "wf_graph g" and nodes: "has_node g u" "has_node g v" and r: "r < length (g_store g)"
  shows "wf_graph (set_adj (set_adj g u v r) v u r)"
proof (rule wf_graphI)
  fix x
  show "\<not> has_node (set_adj (set_adj g u v r) v u r) x \<longleftrightarrow>
      map_of (g_adj (set_adj (set_adj g u v r) v u r)) x = None"
    using wf_graphD(1)[OF wf] nodes by (auto simp: adj_key_set_adj)
next
  fix x
  show "distinct (map fst (adj_of (set_adj (set_adj g u v r) v u r) x))"
    using wf_graphD(2)[OF wf] by (simp add: adj_of_set_adj distinct_dict_set)
next
  fix x y r'
  assume e: "edge_ref (set_adj (set_adj g u v r) v u r) x y = Some r'"
  show "edge_ref (set_adj (set_adj g u v r) v u r) y x = Some r'"
  proof (cases "(x = u \<and> y = v) \<or> (x = v \<and> y = u)")
    case True
    with e show ?thesis by (auto simp: edge_ref_set_adj split: if_splits)
  next
    case False
    with e have e0: "edge_ref g x y = Some r'" by (auto simp: edge_ref_set_adj split: if_splits)
    from wf_graphD(3)[OF wf e0] False show ?thesis by (auto simp: edge_ref_set_adj)
  qed
  show "r' < length (g_store (set_adj (set_adj g u v r) v u r))"
  proof (cases "(x = u \<and> y = v) \<or> (x = v \<and> y = u)")
    case True
    with e r show ?thesis by (auto simp: edge_ref_set_adj split: if_splits)
  next
    case False
    with e have e0: "edge_ref g x y = Some r'" by (auto simp: edge_ref_set_adj split: if_splits)
    from wf_graphD(4)[OF wf e0] show ?thesis by simp
  qed
qed

lemma wf_add_edge: assumes "wf_graph g" shows "wf_graph (add_edge g u v attr)"
proof -
  let ?g1 = "touch_node (touch_node g u) v"
  have wf1: "wf_graph ?g1" using assms by (intro wf_touch_node)
  have n1: "has_node ?g1 u" "has_node ?g1 v" by (simp_all add: has_node_touch_node)
  show ?thesis
  proof (cases "map_of (adj_of ?g1 u) v")
    case None
    let ?g2 = "?g1\<lparr>g_store := g_store ?g1 @ [attr]\<rparr>"
    have "wf_graph ?g2" using wf1 by (rule wf_store_update) simp
    moreover have "has_node ?g2 u" "has_node ?g2 v" using n1 by simp_all
    moreover have "length (g_store ?g1) < length (g_store ?g2)" by simp
    ultimately have "wf_graph (set_adj (set_adj ?g2 u v (length (g_store ?g1))) v u (length (g_store ?g1)))"
      by (rule wf_link)
    with None show ?thesis by (simp add: add_edge_def Let_def)
  next
    case (Some r)
    let ?g2 = "?g1\<lparr>g_store := (g_store ?g1)[r := attr]\<rparr>"
    from Some have "edge_ref ?g1 u v = Some r" by (simp add: edge_ref_def)
    from wf_graphD(4)[OF wf1 this] have r: "r < length (g_store ?g1)" .
    have "wf_graph ?g2" using wf1 by (rule wf_store_update) simp
    moreover have "has_node ?g2 u" "has_node ?g2 v" using n1 by simp_all
    moreover have "r < length (g_store ?g2)" using r by simp
    ultimately have "wf_graph (set_adj (set_adj ?g2 u v r) v u r)"
      by (rule wf_link)
    with Some show ?thesis by (simp add: add_edge_def Let_def)
  qed
qed

lemma wf_set_accessibility:
  assumes "wf_graph g" shows "wf_graph (apply_op g (SetAccessibility a b acc))"
proof -
  have "wf_graph (g\<lparr>g_store := (g_store g)[r := x]\<rparr>)" for r x
    using assms by (rule wf_store_update) simp
  then show ?thesis using assms
    unfolding apply_op_SetAccessibility by (simp split: option.splits)
qed

lemma wf_apply_op: "wf_graph g \<Longrightarrow> wf_graph (apply_op g x)"
proof (cases x)
  case (AddCity n attr)
  assume "wf_graph g" then show ?thesis unfolding AddCity by (simp add: add_city_def wf_add_node)
next
  case (AddConnection a b dst rt acc)
  assume "wf_graph g" then show ?thesis unfolding AddConnection
    by (simp add: add_connection_def wf_add_edge)
next
  case (SetAccessibility a b acc)
  assume "wf_graph g" then show ?thesis unfolding SetAccessibility
    by (simp only: wf_set_accessibility)
qed

lemma wf_run_ops: "wf_graph (run_ops ops)"
  by (induction ops rule: rev_induct) (simp_all add: run_ops_Nil run_ops_snoc wf_graph_empty wf_apply_op)

subsection \<open>What the filtered view shows\<close>

lemma edge_data_sym: "wf_graph g \<Longrightarrow> edge_data g u v = edge_data g v u"
proof -
  assume wf: "wf_graph g"
  show ?thesis
  proof (cases "edge_ref g u v")
    case None
    have "edge_ref g v u = None"
    proof (rule ccontr)
      assume "edge_ref g v u \<noteq> None"
      then obtain r where "edge_ref g v u = Some r" by auto
      from wf_graphD(3)[OF wf this] None show False by simp
    qed
    with None show ?thesis by (simp add: edge_data_def)
  next
    case (Some r)
    from wf_graphD(3)[OF wf Some] Some show ?thesis by (simp add: edge_data_def)
  qed
qed

lemma accessible_edge_sym: "wf_graph g \<Longrightarrow> accessible_edge g u v = accessible_edge g v u"
  by (simp add: accessible_edge_def edge_data_sym[of g u v])

lemma edge_weight_sym:
  "wf_graph g \<Longrightarrow> edge_data g u v = Some a \<Longrightarrow> edge_data g v u = Some a"
  by (simp add: edge_data_sym[of g u v])

lemma accessible_edge_nodes:
  assumes "wf_graph g" "accessible_edge g u v"
  shows "has_node g u" "has_node g v"
proof -
  from assms(2) obtain r where "edge_ref g u v = Some r"
    by (auto simp: accessible_edge_def edge_data_def split: option.splits)
  from wf_edge_nodes[OF assms(1) this] show "has_node g u" "has_node g v" .
qed

lemma view_items_node: "wf_graph g \<Longrightarrow> has_node g v \<longleftrightarrow> view_items g v \<noteq> None"
  using wf_graphD(1)[of g v] by (auto simp: view_items_def split: option.splits)

lemma view_items_mem:
  assumes wf: "wf_graph g" and vi: "view_items g v = Some items"
  shows "(w, a) \<in> set items \<longleftrightarrow> edge_data g v w = Some a \<and> accessible a"
proof -
  from vi obtain nb where nb: "map_of (g_adj g) v = Some nb"
    and items: "items = map (\<lambda>(w, r). (w, g_store g ! r)) (filter (edge_ok g) nb)"
    by (auto simp: view_items_def split: option.splits)
  have adj: "adj_of g v = nb" using nb by (simp add: adj_of_def)
  have dist: "distinct (map fst nb)" using wf_graphD(2)[OF wf, of v] adj by simp
  have ref: "(w, r) \<in> set nb \<longleftrightarrow> edge_ref g v w = Some r" for r
    using dist adj by (auto simp: edge_ref_def)
  show ?thesis
  proof
    assume "(w, a) \<in> set items"
    then obtain r where "(w, r) \<in> set nb" "edge_ok g (w, r)" "a = g_store g ! r"
      by (auto simp: items)
    then show "edge_data g v w = Some a \<and> accessible a"
      by (simp add: ref edge_data_def edge_ok_def)
  next
    assume "edge_data g v w = Some a \<and> accessible a"
    then obtain r where r: "edge_ref g v w = Some r" "a = g_store g ! r" "accessible a"
      by (auto simp: edge_data_def)
    then have "(w, r) \<in> set (filter (edge_ok g) nb)"
      by (simp add: ref edge_ok_def)
    then have "(\<lambda>(w, r). (w, g_store g ! r)) (w, r) \<in> set items"
      unfolding items set_map by (rule imageI)
    then show "(w, a) \<in> set items" using r by simp
  qed
qed

lemma accessible_edge_item:
  assumes wf: "wf_graph g" and e: "accessible_edge g v w"
  shows "\<exists>items a. view_items g v = Some items \<and> (w, a) \<in> set items"
proof -
  from accessible_edge_nodes(1)[OF wf e] obtain items where vi: "view_items g v = Some items"
    using view_items_node[OF wf, of v] by auto
  from e obtain a where "edge_data g v w = Some a" "accessible a"
    by (auto simp: accessible_edge_def split: option.splits)
  with view_items_mem[OF wf vi, of w a] vi show ?thesis by blast
qed

lemma item_edge:
  assumes wf: "wf_graph g" and vi: "view_items g v = Some items" and m: "(w, a) \<in> set items"
  shows "accessible_edge g v w" "wt v w a = edge_weight g wt v w" "wt w v a = edge_weight g wt w v"
proof -
  from view_items_mem[OF wf vi, of w a] m have d: "edge_data g v w = Some a" "accessible a" by simp_all
  from d show "accessible_edge g v w" by (simp add: accessible_edge_def)
  from d show "wt v w a = edge_weight g wt v w" by (simp add: edge_weight_def)
  from edge_weight_sym[OF wf d(1)] show "wt w v a = edge_weight g wt w v" by (simp add: edge_weight_def)
qed

subsection \<open>Paths\<close>

lemma accessible_path_Cons:
  "accessible_path g (u # p) \<longleftrightarrow> (if p = [] then has_node g u else accessible_edge g u (hd p) \<and> accessible_path g p)"
  by (cases p) simp_all

lemma accessible_path_nonempty: "accessible_path g p \<Longrightarrow> p \<noteq> []"
  by (cases p) simp_all

lemma accessible_path_snoc:
  "accessible_path g p \<Longrightarrow> accessible_edge g (last p) w \<Longrightarrow> wf_graph g \<Longrightarrow> accessible_path g (p @ [w])"
proof (induction p rule: accessible_path.induct)
  case (1 g) then show ?case by simp
next
  case (2 g u)
  then show ?case using accessible_edge_nodes(2)[of g u w] by simp
next
  case (3 g u v p) then show ?case by simp
qed

lemma accessible_path_append:
  "accessible_path g p \<Longrightarrow> accessible_path g q \<Longrightarrow> last p = hd q \<Longrightarrow> accessible_path g (p @ tl q)"
proof (induction p rule: accessible_path.induct)
  case (1 g) then show ?case by simp
next
  case (2 g u)
  then show ?case by (cases q) simp_all
next
  case (3 g u v p) then show ?case by simp
qed

lemma accessible_path_suffix:
  "accessible_path g (p @ q) \<Longrightarrow> q \<noteq> [] \<Longrightarrow> accessible_path g q"
proof (induction p)
  case Nil then show ?case by simp
next
  case (Cons u p)
  then show ?case by (cases "p @ q") (auto simp: accessible_path_Cons split: if_splits)
qed

lemma accessible_path_prefix:
  "accessible_path g (p @ q) \<Longrightarrow> p \<noteq> [] \<Longrightarrow> wf_graph g \<Longrightarrow> accessible_path g p"
proof (induction p)
  case Nil then show ?case by simp
next
  case (Cons u p)
  show ?case
  proof (cases p)
    case Nil
    show ?thesis
    proof (cases q)
      case Nil with \<open>p = []\<close> Cons.prems show ?thesis by simp
    next
      case (Cons v q')
      with \<open>p = []\<close> Cons.prems accessible_edge_nodes(1)[of g u v] show ?thesis by simp
    qed
  next
    case (Cons v p')
    with Cons.prems Cons.IH show ?thesis by simp
  qed
qed

lemma accessible_path_rev:
  "wf_graph g \<Longrightarrow> accessible_path g p \<Longrightarrow> accessible_path g (rev p)"
proof (induction p rule: accessible_path.induct)
  case (1 g) then show ?case by simp
next
  case (2 g u) then show ?case by simp
next
  case (3 g u v p)
  then have "accessible_path g (rev (v # p))" by simp
  moreover have "last (rev (v # p)) = v" by simp
  moreover have "accessible_edge g v u" using 3 by (simp add: accessible_edge_sym[of g v u])
  ultimately have "accessible_path g (rev (v # p) @ [u])"
    using accessible_path_snoc 3(2) by metis
  then show ?case by simp
qed

lemma accessible_path_mid:
  "accessible_path g (p @ u # v # q) \<Longrightarrow> accessible_edge g u v"
proof (induction p)
  case Nil then show ?case by simp
next
  case (Cons x p)
  then show ?case by (cases p) simp_all
qed

subsection \<open>Totals\<close>

lemma dtotal_False: "dtotal g wt False p = path_total g wt p"
  by (induction g wt p rule: path_total.induct) (simp_all add: dweight_def)

lemma dtotal_Cons:
  "p \<noteq> [] \<Longrightarrow> dtotal g wt k (u # p) = dweight g wt k u (hd p) + dtotal g wt k p"
  by (cases p) simp_all

lemma dtotal_single [simp]: "dtotal g wt k [u] = 0"
  by simp

lemma dtotal_snoc:
  fixes wt :: "city \<Rightarrow> city \<Rightarrow> edge_attrs \<Rightarrow> 'w::linordered_ab_group_add"
  shows "p \<noteq> [] \<Longrightarrow> dtotal g wt k (p @ [w]) = dtotal g wt k p + dweight g wt k (last p) w"
proof (induction p)
  case Nil then show ?case by simp
next
  case (Cons u p)
  show ?case
  proof (cases p)
    case Nil then show ?thesis by simp
  next
    case (Cons v p')
    with Cons.IH have "dtotal g wt k (p @ [w]) = dtotal g wt k p + dweight g wt k (last p) w" by simp
    with Cons show ?thesis by (simp add: add.assoc)
  qed
qed

lemma dtotal_append:
  fixes wt :: "city \<Rightarrow> city \<Rightarrow> edge_attrs \<Rightarrow> 'w::linordered_ab_group_add"
  shows "p \<noteq> [] \<Longrightarrow> q \<noteq> [] \<Longrightarrow> last p = hd q \<Longrightarrow>
    dtotal g wt k (p @ tl q) = dtotal g wt k p + dtotal g wt k q"
proof (induction q arbitrary: p rule: rev_induct)
  case Nil then show ?case by simp
next
  case (snoc x q)
  show ?case
  proof (cases q)
    case Nil
    with snoc.prems show ?thesis by simp
  next
    case (Cons y q')
    with snoc.prems have h: "last p = hd q" by simp
    have q: "q \<noteq> []" using Cons by simp
    have tl: "tl (q @ [x]) = tl q @ [x]" using q by (cases q) simp_all
    have ne: "p @ tl q \<noteq> []" using snoc.prems by simp
    have last: "last (p @ tl q) = last q"
    proof (cases "tl q")
      case Nil
      with q have "q = [hd q]" by (cases q) simp_all
      then have "last q = hd q" by (metis last.simps)
      with Nil h show ?thesis by simp
    next
      case (Cons z zs)
      then have "last (p @ tl q) = last (tl q)" by simp
      also have "\<dots> = last q" using Cons by (cases q) simp_all
      finally show ?thesis .
    qed
    have "dtotal g wt k (p @ tl (q @ [x])) = dtotal g wt k ((p @ tl q) @ [x])"
      by (simp add: tl)
    also have "\<dots> = dtotal g wt k (p @ tl q) + dweight g wt k (last q) x"
      using dtotal_snoc[OF ne, of g wt k x] last by simp
    also have "\<dots> = dtotal g wt k p + dtotal g wt k q + dweight g wt k (last q) x"
      using snoc.IH[OF snoc.prems(1) q h] by simp
    also have "\<dots> = dtotal g wt k p + dtotal g wt k (q @ [x])"
      using dtotal_snoc[OF q, of g wt k x] by (simp add: add.assoc)
    finally show ?thesis .
  qed
qed

lemma dtotal_rev:
  fixes wt :: "city \<Rightarrow> city \<Rightarrow> edge_attrs \<Rightarrow> 'w::linordered_ab_group_add"
  shows "dtotal g wt k (rev p) = dtotal g wt (\<not> k) p"
proof (induction p)
  case Nil then show ?case by simp
next
  case (Cons u p)
  show ?case
  proof (cases p)
    case Nil then show ?thesis by simp
  next
    case (Cons v p')
    have ne: "rev p \<noteq> []" using Cons by simp
    have "dtotal g wt k (rev (u # p)) = dtotal g wt k (rev p @ [u])" by simp
    also have "\<dots> = dtotal g wt k (rev p) + dweight g wt k (last (rev p)) u"
      by (rule dtotal_snoc[OF ne])
    also have "last (rev p) = v" using Cons by simp
    also have "dweight g wt k v u = dweight g wt (\<not> k) u v" by (simp add: dweight_def)
    finally show ?thesis using Cons.IH Cons by (simp add: add.commute)
  qed
qed

lemma dtotal_nonneg:
  fixes wt :: "city \<Rightarrow> city \<Rightarrow> edge_attrs \<Rightarrow> 'w::linordered_ab_group_add"
  assumes "wf_graph g" "nonneg_weights g wt"
  shows "accessible_path g p \<Longrightarrow> 0 \<le> dtotal g wt k p"
proof (induction p)
  case Nil then show ?case by simp
next
  case (Cons u p)
  show ?case
  proof (cases p)
    case Nil then show ?thesis by simp
  next
    case (Cons v p')
    with Cons.prems have e: "accessible_edge g u v" and "accessible_path g p" by simp_all
    with Cons.IH have r: "0 \<le> dtotal g wt k p" by simp
    from e have e': "accessible_edge g v u" using accessible_edge_sym[OF assms(1)] by simp
    from e e' assms(2) have "0 \<le> dweight g wt k u v" by (simp add: dweight_def nonneg_weights_def)
    with r Cons show ?thesis by simp
  qed
qed

end
